theory Spec2Isabelle
  imports Main
begin

section \<open>Characters, strings and numbers as the TypeScript code uses them\<close>

text \<open>
  A JavaScript string is modelled as a \<^typ>\<open>string\<close>, one \<^typ>\<open>char\<close> per code unit
  (code units below 256). A \<open>bigint\<close> is an \<^typ>\<open>int\<close>; a \<open>number\<close> that only ever
  holds a parsed integer is an \<^typ>\<open>int\<close> or \<^typ>\<open>nat\<close>.
\<close>

definition code :: "char \<Rightarrow> nat" where
  "code c = of_char c"

text \<open>The classes \<open>\d\<close>, \<open>[a-f]\<close> (flag \<open>i\<close>), \<open>\w\<close> and \<open>\s\<close> of the regular expressions.\<close>

definition is_digit :: "char \<Rightarrow> bool" where
  "is_digit c = (48 \<le> code c \<and> code c \<le> 57)"

definition is_hex :: "char \<Rightarrow> bool" where
  "is_hex c = (is_digit c \<or> (97 \<le> code c \<and> code c \<le> 102) \<or> (65 \<le> code c \<and> code c \<le> 70))"

definition is_word :: "char \<Rightarrow> bool" where
  "is_word c = (is_digit c \<or> (97 \<le> code c \<and> code c \<le> 122) \<or> (65 \<le> code c \<and> code c \<le> 90)
     \<or> code c = 95)"

definition is_space :: "char \<Rightarrow> bool" where
  "is_space c = (code c \<in> {9, 10, 11, 12, 13, 32, 160})"

definition toLowerChar :: "char \<Rightarrow> char" where
  "toLowerChar c = (if 65 \<le> code c \<and> code c \<le> 90 then char_of (code c + 32) else c)"

definition toUpperChar :: "char \<Rightarrow> char" where
  "toUpperChar c = (if 97 \<le> code c \<and> code c \<le> 122 then char_of (code c - 32) else c)"

definition toLowerCase :: "string \<Rightarrow> string" where
  "toLowerCase s = map toLowerChar s"

definition toUpperCase :: "string \<Rightarrow> string" where
  "toUpperCase s = map toUpperChar s"

text \<open>\<open>parseInt(s, 16)\<close> and \<open>parseInt(s, 10)\<close>, on strings of digits only (every call
  in the code is behind a regular expression that guarantees it).\<close>

definition hexval :: "char \<Rightarrow> nat" where
  "hexval c = (if is_digit c then code c - 48
               else if 97 \<le> code c then code c - 87 else code c - 55)"

definition parseInt16 :: "string \<Rightarrow> nat" where
  "parseInt16 s = foldl (\<lambda>a c. 16 * a + hexval c) 0 s"

definition parseInt10 :: "string \<Rightarrow> nat" where
  "parseInt10 s = foldl (\<lambda>a c. 10 * a + (code c - 48)) 0 s"

text \<open>\<open>isFinite\<close> of the number \<open>parseInt\<close> returns: the integer read is rounded to a
  double, and becomes \<open>Infinity\<close> from \<open>2^1024 - 2^970\<close> on.\<close>

definition isFinite :: "nat \<Rightarrow> bool" where
  "isFinite n = (n < 2 ^ 1024 - 2 ^ 970)"

text \<open>\<open>n.toString(16)\<close> and \<open>n.toString(10)\<close> of a non-negative integer, and of a bigint.\<close>

definition hexdigit :: "nat \<Rightarrow> char" where
  "hexdigit d = (if d < 10 then char_of (48 + d) else char_of (87 + d))"

function toStringRadix :: "nat \<Rightarrow> nat \<Rightarrow> string" where
  "toStringRadix b n =
     (if n < b \<or> b < 2 then [hexdigit n] else toStringRadix b (n div b) @ [hexdigit (n mod b)])"
  by pat_completeness auto
termination
  by (relation "measure (\<lambda>(b, n). n)") auto

declare toStringRadix.simps [simp del]

definition toString16 :: "int \<Rightarrow> string" where
  "toString16 v = (if v < 0 then CHR ''-'' # toStringRadix 16 (nat (- v)) else toStringRadix 16 (nat v))"

definition toString10 :: "int \<Rightarrow> string" where
  "toString10 v = (if v < 0 then CHR ''-'' # toStringRadix 10 (nat (- v)) else toStringRadix 10 (nat v))"

definition padStart :: "nat \<Rightarrow> char \<Rightarrow> string \<Rightarrow> string" where
  "padStart n c s = replicate (n - length s) c @ s"

text \<open>\<open>s.indexOf(c)\<close> and \<open>s.lastIndexOf(c)\<close>: \<open>-1\<close> when \<open>c\<close> does not occur.\<close>

definition indexOf :: "char \<Rightarrow> string \<Rightarrow> int" where
  "indexOf c s = (if c \<in> set s then int (length (takeWhile (\<lambda>x. x \<noteq> c) s)) else - 1)"

definition lastIndexOf :: "char \<Rightarrow> string \<Rightarrow> int" where
  "lastIndexOf c s =
     (if c \<in> set s then int (length s) - 1 - int (length (takeWhile (\<lambda>x. x \<noteq> c) (rev s))) else - 1)"

text \<open>\<open>s.split(c)\<close>: the pieces between the separators, one piece for a string without
  separator (also for the empty string).\<close>

fun splitAcc :: "char \<Rightarrow> string \<Rightarrow> string \<Rightarrow> string list" where
  "splitAcc sep cur [] = [cur]"
| "splitAcc sep cur (c # cs) =
     (if c = sep then cur # splitAcc sep [] cs else splitAcc sep (cur @ [c]) cs)"

definition split :: "char \<Rightarrow> string \<Rightarrow> string list" where
  "split sep s = splitAcc sep [] s"

fun join :: "string \<Rightarrow> string list \<Rightarrow> string" where
  "join sep [] = []"
| "join sep [x] = x"
| "join sep (x # y # ys) = x @ sep @ join sep (y # ys)"

section \<open>IPv6.ts\<close>

datatype error =
    MissingParameter
  | ValueTooLarge
  | ValueNegative
  | NotHexDigits
  | NotDecimalDigits
  | InvalidAddress
  | TooManyColonColons
  | InvalidIPv4
  | InvalidIPv4Caused error
  | InvalidIPv6
  | InvalidIPv6Caused error
  | NotAnIPv4 string
  | SyntaxError
  | TypeError
  | InvalidURL
  | InvalidPort
  | InvalidPath
  | ValueInBoth

text \<open>The errors are the \<open>throw\<close> sites of the code:
  \<^item> \<open>MissingParameter\<close>: \<open>Error('missing parameter')\<close>;
  \<^item> \<open>ValueTooLarge\<close>, \<open>ValueNegative\<close>: the two \<open>RangeError\<close>s of the constructor;
  \<^item> \<open>NotHexDigits\<close>, \<open>NotDecimalDigits\<close>: the \<open>RangeError\<close>s of \<open>parseHex\<close>, \<open>parseDecimal\<close>;
  \<^item> \<open>InvalidAddress\<close>: \<open>Error("Invalid address")\<close>;
  \<^item> \<open>TooManyColonColons\<close>: \<open>Error('too many "::" in the IPv6 string')\<close>;
  \<^item> \<open>InvalidIPv4\<close>: \<open>Error('Invalid IP v 4 address')\<close>, \<open>InvalidIPv4Caused e\<close> the same
    message followed by \<open>': ' + e\<close>; likewise \<open>InvalidIPv6\<close> and \<open>InvalidIPv6Caused e\<close>;
  \<^item> \<open>NotAnIPv4 s\<close>: \<open>Error('Not an IPv4 address:  "' + s + '"')\<close>;
  \<^item> \<open>SyntaxError\<close>: \<open>BigInt("0x")\<close>; \<open>TypeError\<close>: a method call on \<open>undefined\<close>;
  \<^item> \<open>InvalidURL\<close>, \<open>InvalidPort\<close>, \<open>InvalidPath\<close>, \<open>ValueInBoth\<close>: the errors of HttpURL.ts.
\<close>

text \<open>An argument of type \<open>IPv6|bigint|string\<close>. An \<open>IPv6\<close> instance is its field \<open>value\<close>.\<close>

datatype arg = Inst int | Big int | Str string

definition MAX_128 :: int where
  "MAX_128 = 2 ^ 128 - 1"

definition IPV4PREFIX :: int where
  "IPV4PREFIX = 0xFFFF00000000"

definition IPV4MASK :: int where
  "IPV4MASK = 0xFFFFffffFFFFffffFFFFffff00000000"

text \<open>\<open>HEXREGEX = /^(\d|[a-f])+$/i\<close> and \<open>DECREGEX = /^\d+$/i\<close>.\<close>

definition HEXREGEX_test :: "string \<Rightarrow> bool" where
  "HEXREGEX_test s = (s \<noteq> [] \<and> list_all is_hex s)"

definition DECREGEX_test :: "string \<Rightarrow> bool" where
  "DECREGEX_test s = (s \<noteq> [] \<and> list_all is_digit s)"

definition parseHex :: "string \<Rightarrow> error + nat" where
  "parseHex val =
     (if HEXREGEX_test val \<and> isFinite (parseInt16 val) then Inr (parseInt16 val)
      else Inl NotHexDigits)"

definition parseDecimal :: "string \<Rightarrow> error + nat" where
  "parseDecimal val =
     (if DECREGEX_test val \<and> isFinite (parseInt10 val) then Inr (parseInt10 val)
      else Inl NotDecimalDigits)"

text \<open>\<open>matchCount(COLONSREGEX, s)\<close> with \<open>COLONSREGEX = /::/g\<close>: the matches are found
  left to right and do not overlap. \<open>matchCount(COLONREGEX, s)\<close> counts the colons.\<close>

fun matchCount_COLONS :: "string \<Rightarrow> nat" where
  "matchCount_COLONS (a # b # cs) =
     (if a = CHR '':'' \<and> b = CHR '':'' then Suc (matchCount_COLONS cs)
      else matchCount_COLONS (b # cs))"
| "matchCount_COLONS cs = 0"

definition matchCount_COLON :: "string \<Rightarrow> nat" where
  "matchCount_COLON s = length (filter (\<lambda>c. c = CHR '':'') s)"

text \<open>\<open>s.replace(COLONSREGEX, r)\<close>: every match is replaced (flag \<open>g\<close>).\<close>

fun replace_COLONS :: "string \<Rightarrow> string \<Rightarrow> string" where
  "replace_COLONS r (a # b # cs) =
     (if a = CHR '':'' \<and> b = CHR '':'' then r @ replace_COLONS r cs
      else a # replace_COLONS r (b # cs))"
| "replace_COLONS r cs = cs"

text \<open>\<open>s.replace(SPACEREGEX, '')\<close> with \<open>SPACEREGEX = /\s+/\<close>: the regular expression
  has no flag \<open>g\<close>, so the first run of white space is removed and no other.\<close>

definition replace_SPACE :: "string \<Rightarrow> string" where
  "replace_SPACE s =
     takeWhile (\<lambda>c. \<not> is_space c) s @ dropWhile is_space (dropWhile (\<lambda>c. \<not> is_space c) s)"

text \<open>Lines 153 to 170 of \<open>fromString\<close>: the expansion of \<open>::\<close>.\<close>

definition replacement :: "int \<Rightarrow> string" where
  "replacement missingParts = CHR '':'' # concat (replicate (nat missingParts) ''0:'')"

definition expandColons :: "bool \<Rightarrow> string \<Rightarrow> error + string" where
  "expandColons hasIPv4 val =
     (let colonColons = matchCount_COLONS val in
      if 1 < colonColons then Inl TooManyColonColons
      else if colonColons = 1 then
        (let colons = int (matchCount_COLON val);
             missingParts = (if hasIPv4 then 7 else 8) - colons
         in Inr (replace_COLONS (replacement missingParts) val))
      else Inr val)"

text \<open>Lines 172 to 180: a colon at either end gets a \<open>0\<close> beside it.\<close>

definition patchEnds :: "string \<Rightarrow> string" where
  "patchEnds val =
     (let val1 = (if indexOf CHR '':'' val = 0 then CHR ''0'' # val else val)
      in if val1 \<noteq> [] \<and> last val1 = CHR '':'' then val1 @ ''0'' else val1)"

text \<open>Lines 194 to 207: the four quads, appended to \<open>hexStr\<close> as two hexadecimal digits each.\<close>

fun quadLoop :: "string list \<Rightarrow> string \<Rightarrow> error + string" where
  "quadLoop [] hexStr = Inr hexStr"
| "quadLoop (q # qs) hexStr =
     (case parseDecimal q of
        Inl e \<Rightarrow> Inl (InvalidIPv4Caused e)
      | Inr intVal \<Rightarrow>
          if 255 < intVal then Inl InvalidIPv4
          else quadLoop qs (hexStr @ padStart 2 CHR ''0'' (toString16 (int intVal))))"

text \<open>Lines 214 to 227: \<open>for (let part = parts.pop(); part; part = parts.pop())\<close>. The
  list is given in the order \<open>pop\<close> yields it, last part first. The loop ends when \<open>pop\<close>
  returns \<open>undefined\<close> (no part is left) and also when it returns the empty string, which
  is falsy as well.\<close>

fun partLoop :: "string list \<Rightarrow> string \<Rightarrow> error + string" where
  "partLoop [] hexStr = Inr hexStr"
| "partLoop (part # ps) hexStr =
     (if part = [] then Inr hexStr
      else case parseHex part of
        Inl e \<Rightarrow> Inl (InvalidIPv6Caused e)
      | Inr intVal \<Rightarrow>
          if 0xFFFF < intVal then Inl InvalidIPv6
          else partLoop ps (padStart 4 CHR ''0'' (toString16 (int intVal)) @ hexStr))"

text \<open>\<open>BigInt("0x" + hexStr)\<close>, for a string of hexadecimal digits.\<close>

definition BigInt_0x :: "string \<Rightarrow> error + int" where
  "BigInt_0x hexStr = (if hexStr = [] then Inl SyntaxError else Inr (int (parseInt16 hexStr)))"

text \<open>Lines 182 to 229, from the split into parts on: with a dot-decimal part, the last
  part is popped and read as four quads; then the count of parts is checked and the parts
  are read.\<close>

definition popQuads :: "string list \<Rightarrow> error + string \<times> string list" where
  "popQuads parts0 =
     (case rev parts0 of
        [] \<Rightarrow> Inl TypeError
      | lastPart # rest \<Rightarrow>
          (let quads = split CHR ''.'' lastPart in
           if length quads \<noteq> 4 then Inl InvalidIPv4
           else (case quadLoop quads [] of
                   Inl e \<Rightarrow> Inl e
                 | Inr hexStr \<Rightarrow> Inr (hexStr, rev rest))))"

definition parseParts :: "bool \<Rightarrow> string list \<Rightarrow> error + int" where
  "parseParts hasIPv4 parts0 =
     (case (if hasIPv4 then popQuads parts0 else Inr ([], parts0)) of
        Inl e \<Rightarrow> Inl e
      | Inr (hexStr, parts) \<Rightarrow>
          (if 8 \<noteq> length hexStr div 4 + length parts then Inl InvalidAddress
           else (case partLoop (rev parts) hexStr of
                   Inl e \<Rightarrow> Inl e
                 | Inr hexStr' \<Rightarrow> BigInt_0x hexStr')))"

definition fromString :: "string \<Rightarrow> error + int" where
  "fromString val0 =
     (let val1 = replace_SPACE val0;
          hasIPv4 = (0 < lastIndexOf CHR ''.'' val1)
      in if indexOf CHR '':'' val1 < 0 \<and> \<not> hasIPv4 then Inl InvalidAddress
         else
           (let val2 = (if indexOf CHR '':'' val1 < 0 then ''::FFFF:'' @ val1 else val1) in
            (case expandColons hasIPv4 val2 of
               Inl e \<Rightarrow> Inl e
             | Inr val3 \<Rightarrow> parseParts hasIPv4 (split CHR '':'' (patchEnds val3)))))"

text \<open>\<open>toBigInt\<close>; \<open>None\<close> is \<open>null\<close> or \<open>undefined\<close>.\<close>

definition toBigInt :: "arg option \<Rightarrow> error + int" where
  "toBigInt a =
     (case a of
        None \<Rightarrow> Inl MissingParameter
      | Some (Inst v) \<Rightarrow> Inr v
      | Some (Str s) \<Rightarrow> fromString s
      | Some (Big v) \<Rightarrow> Inr v)"

text \<open>The constructor; the instance built is returned as its field \<open>value\<close>.\<close>

definition new_IPv6 :: "arg option \<Rightarrow> error + int" where
  "new_IPv6 a =
     (case toBigInt a of
        Inl e \<Rightarrow> Inl e
      | Inr v \<Rightarrow> if MAX_128 < v then Inl ValueTooLarge
                 else if v < 0 then Inl ValueNegative
                 else Inr v)"

definition IPv6_from :: "arg \<Rightarrow> error + int" where
  "IPv6_from a = (case a of Inst v \<Rightarrow> Inr v | _ \<Rightarrow> new_IPv6 (Some a))"


text \<open>The method \<open>isIPv4()\<close> of an instance with field \<open>value = v\<close>.\<close>

definition isIPv4 :: "int \<Rightarrow> bool" where
  "isIPv4 v = (IPV4PREFIX = and IPV4MASK v)"

text \<open>\<open>s.match(HEX4REGEX)\<close> and \<open>s.match(HEX2REGEX)\<close> (flags \<open>gi\<close>): the matches from left
  to right, none overlapping; \<open>|| []\<close> turns \<open>null\<close> into the empty array.\<close>

fun match_HEX4 :: "string \<Rightarrow> string list" where
  "match_HEX4 (a # b # c # d # cs) =
     (if is_hex a \<and> is_hex b \<and> is_hex c \<and> is_hex d then [a, b, c, d] # match_HEX4 cs
      else match_HEX4 (b # c # d # cs))"
| "match_HEX4 cs = []"

fun match_HEX2 :: "string \<Rightarrow> string list" where
  "match_HEX2 (a # b # cs) =
     (if is_hex a \<and> is_hex b then [a, b] # match_HEX2 cs else match_HEX2 (b # cs))"
| "match_HEX2 cs = []"

text \<open>\<open>toIPv4String\<close> of an instance that is an IPv4 address: lines 380 to 387.
  \<open>slice(-4)\<close> keeps the last four matches.\<close>

definition slice_last4 :: "'a list \<Rightarrow> 'a list" where
  "slice_last4 xs = drop (length xs - 4) xs"

definition dotDecimal :: "int \<Rightarrow> string" where
  "dotDecimal v =
     (let hexStrs = match_HEX2 (toString16 v);
          ints = slice_last4 hexStrs
      in join ''.'' (map (\<lambda>h. toString10 (int (parseInt16 h))) ints))"

text \<open>The loop of lines 300 to 317 over the eight parts, with its four counters.\<close>

record streaks =
  current_streak :: nat
  current_start :: int
  longest_streak :: nat
  longest_start :: int

definition streakStep :: "int \<Rightarrow> nat \<Rightarrow> streaks \<Rightarrow> streaks" where
  "streakStep i part st =
     (if part = 0 then
        (let st1 = st\<lparr>current_streak := current_streak st + 1\<rparr>;
             st2 = (if current_start st1 < 0 then st1\<lparr>current_start := i\<rparr> else st1)
         in if current_streak st2 > longest_streak st2
            then st2\<lparr>longest_streak := current_streak st2, longest_start := current_start st2\<rparr>
            else st2)
      else st\<lparr>current_start := - 1, current_streak := 0\<rparr>)"

fun streakLoop :: "int \<Rightarrow> nat list \<Rightarrow> streaks \<Rightarrow> streaks" where
  "streakLoop i [] st = st"
| "streakLoop i (part # ps) st = streakLoop (i + 1) ps (streakStep i part st)"

definition streaks0 :: streaks where
  "streaks0 = \<lparr>current_streak = 0, current_start = - 1, longest_streak = 0, longest_start = - 1\<rparr>"

text \<open>Lines 291 to 335: the rendering of a value that is not written in dot-decimal form.
  The value of an instance is in range, so \<open>hexStr\<close> has 32 digits and \<open>hexStrs\<close> eight
  entries, the ones the loop reads.\<close>

definition collapse :: "int \<Rightarrow> string" where
  "collapse v =
     (let hexStr = padStart 32 CHR ''0'' (toString16 v);
          hexStrs = take 8 (match_HEX4 hexStr);
          intParts = map parseInt16 hexStrs;
          st = streakLoop 0 intParts streaks0
      in if longest_streak st \<le> 1 then join '':'' hexStrs
         else
           (if longest_start st = 0 then '':'' else [])
           @ concat (map (\<lambda>p. toString16 (int p) @ '':'') (take (nat (longest_start st)) intParts))
           @ concat (map (\<lambda>p. '':'' @ toString16 (int p))
                (drop (nat (longest_start st) + longest_streak st) intParts))
           @ (if longest_start st + int (longest_streak st) = 8 then '':'' else []))"

text \<open>The methods of an instance with field \<open>value = v\<close>.\<close>

definition toIPv6String :: "int \<Rightarrow> bool \<Rightarrow> string" where
  "toIPv6String v dotDec =
     (if isIPv4 v \<and> dotDec then ''::ffff:'' @ dotDecimal v else collapse v)"

definition toString :: "int \<Rightarrow> string" where
  "toString v = (if isIPv4 v then dotDecimal v else toIPv6String v True)"

definition toIPv4String :: "int \<Rightarrow> error + string" where
  "toIPv4String v = (if isIPv4 v then Inr (dotDecimal v) else Inl (NotAnIPv4 (toString v)))"

text \<open>The static forms take any argument and build the instance first.\<close>

definition toIPv6String_static :: "arg \<Rightarrow> bool \<Rightarrow> error + string" where
  "toIPv6String_static a dotDec =
     (case IPv6_from a of Inl e \<Rightarrow> Inl e | Inr v \<Rightarrow> Inr (toIPv6String v dotDec))"


text \<open>\<open>compare\<close> and \<open>equals\<close> (static). \<open>equals\<close> is given the result type of a function
  that may throw, so that its \<open>try\<close> and \<open>catch\<close> are visible.\<close>

definition compare :: "arg option \<Rightarrow> arg option \<Rightarrow> error + int" where
  "compare first second =
     (case toBigInt first of
        Inl e \<Rightarrow> Inl e
      | Inr f \<Rightarrow>
          (case toBigInt second of
             Inl e \<Rightarrow> Inl e
           | Inr s \<Rightarrow> Inr (if f < s then - 1 else if f > s then 1 else 0)))"

definition equals :: "arg option \<Rightarrow> arg option \<Rightarrow> error + bool" where
  "equals first second =
     (if first = None then Inr (second = None)
      else if second \<noteq> None then
        (case compare first second of
           Inl e \<Rightarrow> Inr False
         | Inr c \<Rightarrow> Inr (0 = c))
      else Inr False)"

section \<open>Regular expressions as the code's engine runs them\<close>

text \<open>
  A backtracking matcher for the constructs the pattern of HttpURL.ts uses. A state is the
  input still to be read with the captures made so far; \<open>ms r x\<close> lists the states in which
  a match of \<open>r\<close> from \<open>x\<close> can end, in the order the engine tries them: the first
  alternative before the second, one more iteration before none (the quantifiers are
  greedy). An iteration that reads nothing ends a quantifier that needs no more iterations.
\<close>

datatype regex =
    Cls "char \<Rightarrow> bool"
  | Eps
  | Eol
  | Seq regex regex
  | Alt regex regex
  | Star regex
  | Rep nat nat regex
  | Grp nat regex

type_synonym captures = "nat \<Rightarrow> string option"

fun rsize :: "regex \<Rightarrow> nat" where
  "rsize (Cls p) = 1"
| "rsize Eps = 1"
| "rsize Eol = 1"
| "rsize (Seq a b) = rsize a + rsize b + 1"
| "rsize (Alt a b) = rsize a + rsize b + 1"
| "rsize (Star r) = rsize r + 1"
| "rsize (Rep m n r) = rsize r + n + 1"
| "rsize (Grp k r) = rsize r + 1"

function ms :: "regex \<Rightarrow> string \<times> captures \<Rightarrow> (string \<times> captures) list" where
  "ms (Cls p) (s, c) = (case s of [] \<Rightarrow> [] | x # xs \<Rightarrow> if p x then [(xs, c)] else [])"
| "ms Eps (s, c) = [(s, c)]"
| "ms Eol (s, c) = (if s = [] then [(s, c)] else [])"
| "ms (Seq a b) (s, c) = concat (map (ms b) (ms a (s, c)))"
| "ms (Alt a b) (s, c) = ms a (s, c) @ ms b (s, c)"
| "ms (Star r) (s, c) =
     concat (map (\<lambda>(s', c'). if length s' < length s then ms (Star r) (s', c') else [])
               (ms r (s, c)))
     @ [(s, c)]"
| "ms (Rep m 0 r) (s, c) = (if m = 0 then [(s, c)] else [])"
| "ms (Rep 0 (Suc n) r) (s, c) =
     concat (map (\<lambda>(s', c'). if length s' < length s then ms (Rep 0 n r) (s', c') else [])
               (ms r (s, c)))
     @ [(s, c)]"
| "ms (Rep (Suc m) (Suc n) r) (s, c) = concat (map (ms (Rep m n r)) (ms r (s, c)))"
| "ms (Grp k r) (s, c) =
     map (\<lambda>(s', c'). (s', c'(k \<mapsto> take (length s - length s') s))) (ms r (s, c))"
  by pat_completeness auto
termination
  by (relation "measures [\<lambda>(r, s, c). rsize r, \<lambda>(r, s, c). length s]") auto

text \<open>A literal character under the flag \<open>i\<close>, a literal string, \<open>r+\<close> and \<open>r?\<close>.\<close>

definition Chr :: "char \<Rightarrow> regex" where
  "Chr a = Cls (\<lambda>x. toUpperChar x = toUpperChar a)"

fun Lit :: "string \<Rightarrow> regex" where
  "Lit [] = Eps"
| "Lit [a] = Chr a"
| "Lit (a # b # bs) = Seq (Chr a) (Lit (b # bs))"

definition Plus :: "regex \<Rightarrow> regex" where
  "Plus r = Seq r (Star r)"

definition Opt :: "regex \<Rightarrow> regex" where
  "Opt r = Rep 0 1 r"

fun Seqs :: "regex list \<Rightarrow> regex" where
  "Seqs [] = Eps"
| "Seqs [r] = r"
| "Seqs (r # q # qs) = Seq r (Seqs (q # qs))"

section \<open>HttpURL.ts\<close>

text \<open>\<open>pctXX = /%([\da-f]{2})/gi\<close> and the function \<open>replace\<close> is given: a triplet of an
  unreserved character is decoded, any other is put in upper case.\<close>

definition pctReplace :: "string \<Rightarrow> string" where
  "pctReplace match =
     (let hexNum = parseInt16 (tl match) in
      if (0x41 \<le> hexNum \<and> hexNum \<le> 0x5A) \<or>
         (0x61 \<le> hexNum \<and> hexNum \<le> 0x7A) \<or>
         (0x30 \<le> hexNum \<and> hexNum \<le> 0x39) \<or>
         0x2D = hexNum \<or>
         0x2E = hexNum \<or>
         0x5F = hexNum \<or>
         0x7E = hexNum
      then [char_of hexNum]
      else toUpperCase match)"

fun replace_pctXX :: "string \<Rightarrow> string" where
  "replace_pctXX (p # a # b # cs) =
     (if p = CHR ''%'' \<and> is_hex a \<and> is_hex b then pctReplace [p, a, b] @ replace_pctXX cs
      else p # replace_pctXX (a # b # cs))"
| "replace_pctXX cs = cs"

text \<open>The character classes of the path and of the query and fragment.\<close>

definition pathChar :: "char \<Rightarrow> bool" where
  "pathChar x = (is_word x \<or> x \<in> set ''-_.!~*'' \<or> x = CHR 0x27 \<or> x \<in> set ''():&=+$,/'')"

definition queryChar :: "char \<Rightarrow> bool" where
  "queryChar x = (is_word x \<or> x \<in> set ''-_.!~*'' \<or> x = CHR 0x27 \<or> x \<in> set ''();&=+$,/?:@[]'')"

definition pctTriplet :: regex where
  "pctTriplet = Seq (Chr CHR ''%'') (Rep 2 2 (Cls is_hex))"

text \<open>The pattern \<open>regEx\<close>, line by line. It starts with \<open>^\<close> and has neither flag
  \<open>g\<close> nor \<open>m\<close>, so \<open>exec\<close> can match at the start of the input only.\<close>

definition regEx :: regex where
  "regEx = Seqs [
     Star (Cls is_space),
     Opt (Seq (Grp 1 (Alt (Lit ''http'') (Lit ''https''))) (Lit ''://'')),
     Alt (Grp 2 (Seq (Rep 3 3 (Seq (Rep 1 3 (Cls is_digit)) (Chr CHR ''.'')))
                     (Rep 1 3 (Cls is_digit))))
      (Alt (Seqs [Chr CHR ''['',
                  Grp 3 (Plus (Cls (\<lambda>x. x = CHR '':'' \<or> x = CHR ''.'' \<or> is_hex x))),
                  Chr CHR '']''])
           (Grp 4 (Seq
              (Star (Alt (Seq (Cls is_word) (Chr CHR ''.''))
                         (Seqs [Cls is_word, Star (Cls (\<lambda>x. is_word x \<or> x = CHR ''-'')),
                                Cls is_word, Chr CHR ''.''])))
              (Alt (Cls is_word)
                   (Seqs [Cls is_word, Star (Cls (\<lambda>x. is_word x \<or> x = CHR ''-'')),
                          Cls is_word]))))),
     Opt (Seq (Chr CHR '':'') (Grp 5 (Seq (Opt (Chr CHR ''-'')) (Rep 1 10 (Cls is_digit))))),
     Opt (Seq (Chr CHR ''/'') (Grp 6 (Star (Alt pctTriplet (Cls pathChar))))),
     Opt (Seq (Chr CHR ''?'') (Grp 7 (Star (Alt pctTriplet (Cls queryChar))))),
     Opt (Seq (Chr CHR ''#'') (Grp 8 (Star (Alt pctTriplet (Cls queryChar))))),
     Star (Cls is_space),
     Eol]"

definition exec :: "regex \<Rightarrow> string \<Rightarrow> captures option" where
  "exec r s = (case ms r (s, Map.empty) of [] \<Rightarrow> None | (s', c) # rest \<Rightarrow> Some c)"

text \<open>\<open>parts[k]\<close> where the code tests it for truth or uses it after such a test:
  \<open>undefined\<close> and the empty string are both falsy.\<close>

definition part :: "captures \<Rightarrow> nat \<Rightarrow> string" where
  "part parts k = (case parts k of None \<Rightarrow> [] | Some s \<Rightarrow> s)"

text \<open>\<open>parseInt(s, 10)\<close> of the port, an optional minus sign before digits.\<close>

definition parseInt10s :: "string \<Rightarrow> int" where
  "parseInt10s s =
     (case s of
        [] \<Rightarrow> 0
      | c # cs \<Rightarrow> if c = CHR ''-'' then - int (parseInt10 cs) else int (parseInt10 s))"

text \<open>The class \<open>QueryParam\<close>. The field \<open>value\<close> may be \<open>undefined\<close>.\<close>

record QueryParam =
  qname :: string
  qvalue :: "string option"

definition new_QueryParam :: "string \<Rightarrow> string option \<Rightarrow> error + QueryParam" where
  "new_QueryParam nm val =
     (let eqIdx = indexOf CHR ''='' nm in
      if 0 \<le> eqIdx then
        (if val \<noteq> None \<and> val \<noteq> Some [] then Inl ValueInBoth
         else Inr \<lparr>qname = take (nat eqIdx) nm, qvalue = Some (drop (nat eqIdx + 1) nm)\<rparr>)
      else Inr \<lparr>qname = nm, qvalue = val\<rparr>)"

definition QueryParam_toString :: "QueryParam \<Rightarrow> string" where
  "QueryParam_toString q =
     (case qvalue q of
        None \<Rightarrow> qname q
      | Some v \<Rightarrow> if v \<noteq> [] then qname q @ ''='' @ v else qname q)"

text \<open>The order \<open><\<close> of strings: by code units, a proper prefix first.\<close>

fun str_less :: "string \<Rightarrow> string \<Rightarrow> bool" where
  "str_less [] [] = False"
| "str_less [] (y # ys) = True"
| "str_less (x # xs) [] = False"
| "str_less (x # xs) (y # ys) = (code x < code y \<or> (x = y \<and> str_less xs ys))"

definition str_compare :: "string \<Rightarrow> string \<Rightarrow> int" where
  "str_compare a b = (if str_less a b then - 1 else if str_less b a then 1 else 0)"

definition QueryParam_compare :: "QueryParam \<Rightarrow> QueryParam \<Rightarrow> int" where
  "QueryParam_compare qa qb =
     (let an = qname qa;
          av = (case qvalue qa of None \<Rightarrow> [] | Some v \<Rightarrow> v);
          bn = qname qb;
          bv = (case qvalue qb of None \<Rightarrow> [] | Some v \<Rightarrow> v);
          comp = str_compare an bn
      in if 0 = comp then str_compare av bv else comp)"

text \<open>\<open>Array.prototype.sort\<close> with a comparison function is a stable sort: an element
  goes behind the elements that do not compare greater.\<close>

fun insertBy :: "('a \<Rightarrow> 'a \<Rightarrow> int) \<Rightarrow> 'a \<Rightarrow> 'a list \<Rightarrow> 'a list" where
  "insertBy cmp x [] = [x]"
| "insertBy cmp x (y # ys) = (if cmp x y < 0 then x # y # ys else y # insertBy cmp x ys)"

definition sortBy :: "('a \<Rightarrow> 'a \<Rightarrow> int) \<Rightarrow> 'a list \<Rightarrow> 'a list" where
  "sortBy cmp xs = foldl (\<lambda>acc x. insertBy cmp x acc) [] xs"

text \<open>\<open>s.match(qSep)\<close> with \<open>qSep = /[^&;]+/g\<close>: the longest runs without separator.\<close>

fun match_qSep :: "string \<Rightarrow> string \<Rightarrow> string list" where
  "match_qSep cur [] = (if cur = [] then [] else [cur])"
| "match_qSep cur (c # cs) =
     (if c = CHR ''&'' \<or> c = CHR '';''
      then (if cur = [] then [] else [cur]) @ match_qSep [] cs
      else match_qSep (cur @ [c]) cs)"

fun pushParams :: "string list \<Rightarrow> QueryParam list \<Rightarrow> error + QueryParam list" where
  "pushParams [] acc = Inr acc"
| "pushParams (q # qs) acc =
     (case new_QueryParam q None of
        Inl e \<Rightarrow> Inl e
      | Inr p \<Rightarrow> pushParams qs (acc @ [p]))"

text \<open>The class \<open>HttpURL\<close>.\<close>

record HttpURL =
  scheme :: string
  ipAddress :: "int option"
  host :: string
  port :: int
  path :: "string list"
  query :: "QueryParam list"
  fragment :: "string option"
  isDir :: bool

text \<open>Lines 104 to 116: the walk over the segments with \<open>pathStack\<close>.\<close>

fun walk :: "string list \<Rightarrow> string list \<Rightarrow> error + string list" where
  "walk [] pathStack = Inr pathStack"
| "walk (segment # rest) pathStack =
     (if segment \<noteq> [] \<and> ''.'' \<noteq> segment then
        (if ''..'' = segment then
           (if pathStack = [] then Inl InvalidPath else walk rest (butlast pathStack))
         else walk rest (pathStack @ [segment]))
      else walk rest pathStack)"

text \<open>Line 75: the scheme.\<close>

definition schemeOf :: "captures \<Rightarrow> string" where
  "schemeOf parts = (if part parts 1 \<noteq> [] then toLowerCase (part parts 1) else ''http'')"

text \<open>Lines 77 to 85: the host, with the address when the host is one.\<close>

definition hostOf :: "captures \<Rightarrow> error + int option \<times> string" where
  "hostOf parts =
     (if part parts 2 \<noteq> [] then
        (case new_IPv6 (Some (Str (part parts 2))) of
           Inl e \<Rightarrow> Inl e
         | Inr ip \<Rightarrow> Inr (Some ip, toString ip))
      else if part parts 3 \<noteq> [] then
        (case new_IPv6 (Some (Str (part parts 3))) of
           Inl e \<Rightarrow> Inl e
         | Inr ip \<Rightarrow> Inr (Some ip, toString ip))
      else (case parts 4 of
              None \<Rightarrow> Inl TypeError
            | Some h \<Rightarrow> Inr (None, toLowerCase h)))"

text \<open>Lines 87 to 95: the port.\<close>

definition portOf :: "captures \<Rightarrow> string \<Rightarrow> error + int" where
  "portOf parts sch =
     (if part parts 5 \<noteq> [] then
        (let p = parseInt10s (part parts 5) in
         if p < 0 \<or> 65535 < p then Inl InvalidPort else Inr p)
      else Inr (if ''http'' = sch then 80 else 443))"

text \<open>Lines 98 to 122: the path.\<close>

definition pathOf :: "captures \<Rightarrow> error + string list" where
  "pathOf parts =
     (if part parts 6 \<noteq> [] then walk (split CHR ''/'' (part parts 6)) [] else Inr [])"

text \<open>Lines 129 to 134: the query.\<close>

definition queryOf :: "captures \<Rightarrow> error + QueryParam list" where
  "queryOf parts =
     (if part parts 7 \<noteq> [] then
        (case pushParams (match_qSep [] (part parts 7)) [] of
           Inl e \<Rightarrow> Inl e
         | Inr qs \<Rightarrow> Inr (sortBy QueryParam_compare qs))
      else Inr [])"

definition new_HttpURL :: "string \<Rightarrow> error + HttpURL" where
  "new_HttpURL url0 =
     (let url = replace_pctXX url0 in
      case exec regEx url of
        None \<Rightarrow> Inl InvalidURL
      | Some parts \<Rightarrow>
          (let sch = schemeOf parts in
           case hostOf parts of
             Inl e \<Rightarrow> Inl e
           | Inr (ip, h) \<Rightarrow>
               (case portOf parts sch of
                  Inl e \<Rightarrow> Inl e
                | Inr p \<Rightarrow>
                    (case pathOf parts of
                       Inl e \<Rightarrow> Inl e
                     | Inr pth \<Rightarrow>
                         (case queryOf parts of
                            Inl e \<Rightarrow> Inl e
                          | Inr q \<Rightarrow>
                              Inr \<lparr>scheme = sch, ipAddress = ip, host = h, port = p,
                                   path = pth, query = q,
                                   fragment = (if part parts 8 \<noteq> [] then Some (part parts 8)
                                               else None),
                                   isDir = (pth = [] \<or>
                                            (part parts 6 \<noteq> [] \<and> last (part parts 6) = CHR ''/''))\<rparr>)))))"

text \<open>\<open>toString\<close> of an \<open>HttpURL\<close>.\<close>

definition HttpURL_toString :: "HttpURL \<Rightarrow> string" where
  "HttpURL_toString u =
     (let theHost = (case ipAddress u of
                       None \<Rightarrow> host u
                     | Some ip \<Rightarrow> if \<not> isIPv4 ip then ''['' @ host u @ '']'' else host u)
      in scheme u @ ''://'' @ theHost @ '':'' @ toString10 (port u)
         @ (if path u \<noteq> [] then ''/'' @ join ''/'' (path u) else [])
         @ (if isDir u then ''/'' else [])
         @ (if query u \<noteq> [] then ''?'' @ join ''&'' (map QueryParam_toString (query u)) else [])
         @ (case fragment u of None \<Rightarrow> [] | Some f \<Rightarrow> f))"

section \<open>The specification's wording of the path resolution\<close>

text \<open>The resolution as the specification describes it: a stack, \<open>None\<close> once the walk
  has failed; an empty segment and \<open>.\<close> are skipped, \<open>..\<close> pops a segment or fails on the
  empty stack, any other segment is pushed.\<close>

definition spec_step :: "string list option \<Rightarrow> string \<Rightarrow> string list option" where
  "spec_step stack seg =
     (case stack of
        None \<Rightarrow> None
      | Some st \<Rightarrow>
          if seg = [] then Some st
          else if seg = ''.'' then Some st
          else if seg = ''..'' then (if st = [] then None else Some (butlast st))
          else Some (st @ [seg]))"

definition spec_resolve :: "string list \<Rightarrow> string list \<Rightarrow> string list option" where
  "spec_resolve st segs = foldl spec_step (Some st) segs"

section \<open>Notions used in the statements and proofs\<close>

text \<open>The digits of \<open>n\<close> in base \<open>b\<close> at a fixed width \<open>k\<close>, leading zeros included:
  what \<open>padStart\<close> makes of \<open>toString\<close> when the number fits.\<close>

primrec digs :: "nat \<Rightarrow> nat \<Rightarrow> nat \<Rightarrow> string" where
  "digs b 0 n = []"
| "digs b (Suc k) n = digs b k (n div b) @ [hexdigit (n mod b)]"

text \<open>The last \<open>k\<close> 16-bit groups of a number, most significant first.\<close>

primrec groups16 :: "nat \<Rightarrow> nat \<Rightarrow> nat list" where
  "groups16 0 n = []"
| "groups16 (Suc k) n = groups16 k (n div 65536) @ [n mod 65536]"

text \<open>The dot-decimal form of a 32-bit number, as the specification describes it: its four
  bytes in decimal, most significant first.\<close>

definition ipv4_text :: "nat \<Rightarrow> string" where
  "ipv4_text w =
     join ''.'' (map (\<lambda>b. toString10 (int b))
       [w div 2 ^ 24 mod 256, w div 2 ^ 16 mod 256, w div 2 ^ 8 mod 256, w mod 256])"


definition code_group :: "string \<Rightarrow> bool" where
  "code_group p = (p \<noteq> [] \<and> list_all is_hex p \<and> parseInt16 p \<le> 0xFFFF)"

text \<open>A part as \<open>toIPv6String\<close> writes it and the group it stands for: digits that
  \<open>toString(16)\<close> produces, at least one, of a value up to \<open>0xFFFF\<close>.\<close>

definition hexblock :: "string \<Rightarrow> nat \<Rightarrow> bool" where
  "hexblock p g = (p \<noteq> [] \<and> set p \<subseteq> hexdigit ` {0..<16} \<and> parseInt16 p = g \<and> g \<le> 0xFFFF)"

text \<open>What the loop over the parts knows after the parts \<open>seen\<close>: the current run of
  zero parts ends the list, and the longest run recorded is a run of zero parts.\<close>

definition streak_inv :: "nat list \<Rightarrow> streaks \<Rightarrow> bool" where
  "streak_inv seen st =
     (current_streak st \<le> length seen
      \<and> current_start st =
          (if current_streak st = 0 then - 1 else int (length seen) - int (current_streak st))
      \<and> (\<forall>j. length seen - current_streak st \<le> j \<and> j < length seen \<longrightarrow> seen ! j = 0)
      \<and> (if longest_streak st = 0 then longest_start st = - 1
          else 0 \<le> longest_start st
            \<and> nat (longest_start st) + longest_streak st \<le> length seen
            \<and> (\<forall>j. nat (longest_start st) \<le> j \<and> j < nat (longest_start st) + longest_streak st
                  \<longrightarrow> seen ! j = 0)))"

text \<open>Three properties of a pattern, for a character \<open>x\<close> and a group \<open>k\<close>: no class
  of the pattern accepts \<open>x\<close>; no class inside a group of the pattern accepts \<open>x\<close>; the
  pattern has no group \<open>k\<close>.\<close>

fun avoids :: "char \<Rightarrow> regex \<Rightarrow> bool" where
  "avoids x (Cls p) = (\<not> p x)"
| "avoids x Eps = True"
| "avoids x Eol = True"
| "avoids x (Seq a b) = (avoids x a \<and> avoids x b)"
| "avoids x (Alt a b) = (avoids x a \<and> avoids x b)"
| "avoids x (Star r) = avoids x r"
| "avoids x (Rep m n r) = avoids x r"
| "avoids x (Grp k r) = avoids x r"

fun grp_avoids :: "char \<Rightarrow> regex \<Rightarrow> bool" where
  "grp_avoids x (Cls p) = True"
| "grp_avoids x Eps = True"
| "grp_avoids x Eol = True"
| "grp_avoids x (Seq a b) = (grp_avoids x a \<and> grp_avoids x b)"
| "grp_avoids x (Alt a b) = (grp_avoids x a \<and> grp_avoids x b)"
| "grp_avoids x (Star r) = grp_avoids x r"
| "grp_avoids x (Rep m n r) = grp_avoids x r"
| "grp_avoids x (Grp k r) = avoids x r"

fun no_grp :: "nat \<Rightarrow> regex \<Rightarrow> bool" where
  "no_grp k (Cls p) = True"
| "no_grp k Eps = True"
| "no_grp k Eol = True"
| "no_grp k (Seq a b) = (no_grp k a \<and> no_grp k b)"
| "no_grp k (Alt a b) = (no_grp k a \<and> no_grp k b)"
| "no_grp k (Star r) = no_grp k r"
| "no_grp k (Rep m n r) = no_grp k r"
| "no_grp k (Grp j r) = (j \<noteq> k \<and> no_grp k r)"

section \<open>Evaluation\<close>

lemma replicate_numeral_eval: "replicate (numeral k) x = x # replicate (pred_numeral k) x"
  by (simp add: numeral_eq_Suc)

lemmas eval_chars = code_def is_digit_def is_hex_def is_space_def hexval_def hexdigit_def
  char_of_eq_iff

lemmas eval_numbers = parseInt16_def parseInt10_def isFinite_def toString16_def toString10_def
  toStringRadix.simps padStart_def replicate_numeral_eval

lemmas eval_fromString = fromString_def replace_SPACE_def lastIndexOf_def indexOf_def
  expandColons_def matchCount_COLON_def replacement_def patchEnds_def split_def parseParts_def
  popQuads_def parseHex_def parseDecimal_def HEXREGEX_test_def DECREGEX_test_def BigInt_0x_def
  Let_def

lemmas eval_toString = toIPv6String_def isIPv4_def IPV4MASK_def IPV4PREFIX_def collapse_def
  streakStep_def streaks0_def toIPv4String_def dotDecimal_def slice_last4_def toString_def

section \<open>The end-to-end example\<close>

text \<open>
  Claim C1. Constructing a URL from \<open>Foo.org/a/./c/../B//%64/CR%9a?b=c;a=;C=%64#\<close>
  succeeds, and \<open>toString\<close> of the URL built is exactly
  \<open>http://foo.org:80/a/B/d/CR%9A?C=d&a&b=c\<close>: the scheme defaults to \<open>http\<close>, the host is in
  lower case, the port defaults to 80, \<open>%64\<close> is decoded to \<open>d\<close>, \<open>%9a\<close> becomes \<open>%9A\<close>, the
  path is resolved, the query is sorted by name and then value with \<open>a=\<close> written \<open>a\<close>, and
  the empty fragment is dropped.
\<close>

theorem C1_end_to_end:
  "\<exists>u. new_HttpURL ''Foo.org/a/./c/../B//%64/CR%9a?b=c;a=;C=%64#'' = Inr u
     \<and> HttpURL_toString u = ''http://foo.org:80/a/B/d/CR%9A?C=d&a&b=c''
     \<and> scheme u = ''http'' \<and> host u = ''foo.org'' \<and> port u = 80
     \<and> path u = [''a'', ''B'', ''d'', ''CR%9A'']
     \<and> map QueryParam_toString (query u) = [''C=d'', ''a'', ''b=c'']
     \<and> fragment u = None"
proof -
  have "new_HttpURL ''Foo.org/a/./c/../B//%64/CR%9a?b=c;a=;C=%64#'' =
          Inr \<lparr>scheme = ''http'', ipAddress = None, host = ''foo.org'', port = 80,
               path = [''a'', ''B'', ''d'', ''CR%9A''],
               query = [\<lparr>qname = ''C'', qvalue = Some ''d''\<rparr>,
                        \<lparr>qname = ''a'', qvalue = Some []\<rparr>,
                        \<lparr>qname = ''b'', qvalue = Some ''c''\<rparr>],
               fragment = None, isDir = False\<rparr>"
    by code_simp
  then show ?thesis
    by (simp add: HttpURL_toString_def QueryParam_toString_def toString10_def
        toStringRadix.simps hexdigit_def char_of_eq_iff)
qed

section \<open>Path resolution\<close>

lemma foldl_spec_step_None: "foldl spec_step None segs = None"
  by (induction segs) (simp_all add: spec_step_def)

lemma spec_step_Some:
  "spec_step (Some st) seg =
     (if seg = [] then Some st
      else if seg = ''.'' then Some st
      else if seg = ''..'' then (if st = [] then None else Some (butlast st))
      else Some (st @ [seg]))"
  by (simp add: spec_step_def)

lemma walk_spec_resolve:
  "walk segs st = (case spec_resolve st segs of None \<Rightarrow> Inl InvalidPath | Some p \<Rightarrow> Inr p)"
  unfolding spec_resolve_def
proof (induction segs arbitrary: st)
  case Nil
  show ?case by simp
next
  case (Cons seg rest)
  show ?case
    by (auto simp add: Cons.IH spec_step_Some foldl_spec_step_None)
qed

lemma walk_append:
  "walk (xs @ ys) st = (case walk xs st of Inl e \<Rightarrow> Inl e | Inr st' \<Rightarrow> walk ys st')"
  by (induction xs arbitrary: st) simp_all

lemma walk_error_is_InvalidPath: "walk segs st = Inl e \<Longrightarrow> e = InvalidPath"
  by (induction segs arbitrary: st) (auto split: if_splits)

lemma walk_fails_iff:
  "(walk segs st = Inl InvalidPath) =
     (\<exists>pre post. segs = pre @ ''..'' # post \<and> walk pre st = Inr [])"
proof (induction segs arbitrary: st)
  case Nil
  show ?case by simp
next
  case (Cons seg rest)
  show ?case
  proof (cases "seg = ''..''")
    case dots: True
    show ?thesis
    proof (cases "st = []")
      case True
      have "walk [] st = Inr []" using True by simp
      then have "\<exists>pre post. seg # rest = pre @ ''..'' # post \<and> walk pre st = Inr []"
        using dots by (metis append_Nil)
      then show ?thesis using dots True by simp
    next
      case False
      have step: "\<And>xs. walk (seg # xs) st = walk xs (butlast st)"
        using dots False by simp
      show ?thesis
      proof
        assume "walk (seg # rest) st = Inl InvalidPath"
        then have "walk rest (butlast st) = Inl InvalidPath" by (simp only: step)
        then obtain pre post where "rest = pre @ ''..'' # post" "walk pre (butlast st) = Inr []"
          using Cons.IH by blast
        then have "seg # rest = (seg # pre) @ ''..'' # post \<and> walk (seg # pre) st = Inr []"
          by (simp only: step append_Cons simp_thms)
        then show "\<exists>pre post. seg # rest = pre @ ''..'' # post \<and> walk pre st = Inr []"
          by blast
      next
        assume "\<exists>pre post. seg # rest = pre @ ''..'' # post \<and> walk pre st = Inr []"
        then obtain pre post where p: "seg # rest = pre @ ''..'' # post" "walk pre st = Inr []"
          by blast
        have "pre \<noteq> []" using p False by auto
        then obtain pre' where pre': "pre = seg # pre'" using p(1) by (cases pre) auto
        then have "rest = pre' @ ''..'' # post" "walk pre' (butlast st) = Inr []"
          using p step [of pre'] by (simp_all only: append_Cons list.inject)
        then have "walk rest (butlast st) = Inl InvalidPath" using Cons.IH by blast
        then show "walk (seg # rest) st = Inl InvalidPath" by (simp only: step)
      qed
    qed
  next
    case nodots: False
    define st' where "st' = (if seg \<noteq> [] \<and> ''.'' \<noteq> seg then st @ [seg] else st)"
    have step: "\<And>xs. walk (seg # xs) st = walk xs st'"
      using nodots by (auto simp: st'_def)
    show ?thesis
    proof
      assume "walk (seg # rest) st = Inl InvalidPath"
      then have "walk rest st' = Inl InvalidPath" by (simp only: step)
      then obtain pre post where "rest = pre @ ''..'' # post" "walk pre st' = Inr []"
        using Cons.IH by blast
      then have "seg # rest = (seg # pre) @ ''..'' # post \<and> walk (seg # pre) st = Inr []"
        by (simp only: step append_Cons simp_thms)
      then show "\<exists>pre post. seg # rest = pre @ ''..'' # post \<and> walk pre st = Inr []"
        by blast
    next
      assume "\<exists>pre post. seg # rest = pre @ ''..'' # post \<and> walk pre st = Inr []"
      then obtain pre post where p: "seg # rest = pre @ ''..'' # post" "walk pre st = Inr []"
        by blast
      have "pre \<noteq> []" using p nodots by auto
      then obtain pre' where pre': "pre = seg # pre'" using p(1) by (cases pre) auto
      then have "rest = pre' @ ''..'' # post" "walk pre' st' = Inr []"
        using p step [of pre'] by (simp_all only: append_Cons list.inject)
      then have "walk rest st' = Inl InvalidPath" using Cons.IH by blast
      then show "walk (seg # rest) st = Inl InvalidPath" by (simp only: step)
    qed
  qed
qed

text \<open>No error of the address parser, of the port or of the query is the error of the
  path.\<close>

lemma quadLoop_not_InvalidPath: "quadLoop qs h = Inl e \<Longrightarrow> e \<noteq> InvalidPath"
  by (induction qs arbitrary: h) (auto split: sum.splits if_splits)

lemma partLoop_not_InvalidPath: "partLoop ps h = Inl e \<Longrightarrow> e \<noteq> InvalidPath"
  by (induction ps arbitrary: h) (auto split: sum.splits if_splits)

lemma parseParts_not_InvalidPath: "parseParts b ps = Inl e \<Longrightarrow> e \<noteq> InvalidPath"
  by (auto simp: parseParts_def popQuads_def BigInt_0x_def Let_def
      dest: quadLoop_not_InvalidPath partLoop_not_InvalidPath
      split: sum.splits if_splits list.splits prod.splits)

lemma fromString_not_InvalidPath: "fromString s = Inl e \<Longrightarrow> e \<noteq> InvalidPath"
  by (auto simp: fromString_def expandColons_def Let_def dest: parseParts_not_InvalidPath
      split: sum.splits if_splits)

lemma hostOf_not_InvalidPath: "hostOf parts = Inl e \<Longrightarrow> e \<noteq> InvalidPath"
  by (auto simp: hostOf_def new_IPv6_def toBigInt_def dest: fromString_not_InvalidPath
      split: sum.splits if_splits option.splits)

lemma portOf_not_InvalidPath: "portOf parts sch = Inl e \<Longrightarrow> e \<noteq> InvalidPath"
  by (auto simp: portOf_def Let_def split: if_splits)

lemma pushParams_Inr: "\<exists>qs'. pushParams qs acc = Inr qs'"
  by (induction qs arbitrary: acc) (auto simp: new_QueryParam_def Let_def)

lemma queryOf_Inr: "\<exists>q. queryOf parts = Inr q"
  using pushParams_Inr [of "match_qSep [] (part parts 7)" "[]"]
  by (auto simp: queryOf_def)

lemma pathOf_walk:
  "pathOf parts = walk (split CHR ''/'' (part parts 6)) []"
  by (simp add: pathOf_def split_def)

lemma new_HttpURL_InvalidPath_iff:
  "(new_HttpURL url = Inl InvalidPath) =
     (\<exists>parts ip h p. exec regEx (replace_pctXX url) = Some parts
        \<and> hostOf parts = Inr (ip, h) \<and> portOf parts (schemeOf parts) = Inr p
        \<and> walk (split CHR ''/'' (part parts 6)) [] = Inl InvalidPath)"
proof (cases "exec regEx (replace_pctXX url)")
  case None
  then show ?thesis by (simp add: new_HttpURL_def)
next
  case (Some parts)
  obtain q where q: "queryOf parts = Inr q" using queryOf_Inr by blast
  show ?thesis
  proof (cases "hostOf parts")
    case (Inl e)
    then show ?thesis
      using Some hostOf_not_InvalidPath [OF Inl] by (simp add: new_HttpURL_def)
  next
    case (Inr iph)
    obtain ip h where iph: "iph = (ip, h)" by (cases iph)
    show ?thesis
    proof (cases "portOf parts (schemeOf parts)")
      case (Inl e)
      then show ?thesis
        using Some Inr iph portOf_not_InvalidPath [OF Inl] by (simp add: new_HttpURL_def)
    next
      case p: (Inr p)
      show ?thesis
        using Some Inr iph p q walk_error_is_InvalidPath
        by (auto simp add: new_HttpURL_def pathOf_walk split: sum.splits)
    qed
  qed
qed

lemma new_HttpURL_path:
  "new_HttpURL url = Inr u \<Longrightarrow>
     \<exists>parts. exec regEx (replace_pctXX url) = Some parts
       \<and> walk (split CHR ''/'' (part parts 6)) [] = Inr (path u)
       \<and> isDir u = (path u = [] \<or> (part parts 6 \<noteq> [] \<and> last (part parts 6) = CHR ''/''))"
  by (auto simp add: new_HttpURL_def pathOf_walk Let_def split: option.splits sum.splits)

text \<open>
  Claim C4. The path is resolved by a walk, left to right, over the raw path split at
  \<open>/\<close>, with a stack: an empty segment and \<open>.\<close> are skipped, \<open>..\<close> pops one segment, any
  other segment is pushed as it is, and the stack at the end is the path. The
  construction fails with the error of an invalid path exactly when the walk meets a
  \<open>..\<close> with the empty stack. So the path of \<open>http://a/a/b/c/../../.././/d\<close> is \<open>[d]\<close>, the
  path of \<open>http://a/a/b/c/../../.././/\<close> is empty with \<open>isDir\<close> true, and
  \<open>foo.com/a/../../b\<close> fails with the error of an invalid path.
\<close>

theorem C4_path_resolution:
  "(\<forall>segs st. walk segs st =
       (case spec_resolve st segs of None \<Rightarrow> Inl InvalidPath | Some p \<Rightarrow> Inr p))
   \<and> (\<forall>segs. (walk segs [] = Inl InvalidPath) =
         (\<exists>pre post. segs = pre @ ''..'' # post \<and> spec_resolve [] pre = Some []))
   \<and> (\<forall>url. (new_HttpURL url = Inl InvalidPath) =
         (\<exists>parts ip h p pre post. exec regEx (replace_pctXX url) = Some parts
            \<and> hostOf parts = Inr (ip, h) \<and> portOf parts (schemeOf parts) = Inr p
            \<and> split CHR ''/'' (part parts 6) = pre @ ''..'' # post
            \<and> spec_resolve [] pre = Some []))
   \<and> (\<forall>url u. new_HttpURL url = Inr u \<longrightarrow>
         (\<exists>parts. exec regEx (replace_pctXX url) = Some parts
            \<and> spec_resolve [] (split CHR ''/'' (part parts 6)) = Some (path u)))
   \<and> (\<exists>u. new_HttpURL ''http://a/a/b/c/../../.././/d'' = Inr u \<and> path u = [''d''])
   \<and> (\<exists>u. new_HttpURL ''http://a/a/b/c/../../.././/'' = Inr u \<and> path u = [] \<and> isDir u)
   \<and> new_HttpURL ''foo.com/a/../../b'' = Inl InvalidPath"
proof -
  have inr: "\<And>segs st p. (walk segs st = Inr p) = (spec_resolve st segs = Some p)"
    by (simp add: walk_spec_resolve split: option.splits)
  have a: "\<forall>segs st. walk segs st =
       (case spec_resolve st segs of None \<Rightarrow> Inl InvalidPath | Some p \<Rightarrow> Inr p)"
    using walk_spec_resolve by blast
  have b: "\<forall>segs. (walk segs [] = Inl InvalidPath) =
         (\<exists>pre post. segs = pre @ ''..'' # post \<and> spec_resolve [] pre = Some [])"
    by (simp only: walk_fails_iff inr simp_thms)
  have c: "\<forall>url. (new_HttpURL url = Inl InvalidPath) =
         (\<exists>parts ip h p pre post. exec regEx (replace_pctXX url) = Some parts
            \<and> hostOf parts = Inr (ip, h) \<and> portOf parts (schemeOf parts) = Inr p
            \<and> split CHR ''/'' (part parts 6) = pre @ ''..'' # post
            \<and> spec_resolve [] pre = Some [])"
    unfolding new_HttpURL_InvalidPath_iff walk_fails_iff inr by blast
  have d: "\<forall>url u. new_HttpURL url = Inr u \<longrightarrow>
         (\<exists>parts. exec regEx (replace_pctXX url) = Some parts
            \<and> spec_resolve [] (split CHR ''/'' (part parts 6)) = Some (path u))"
    using new_HttpURL_path inr by blast
  have e1: "new_HttpURL ''http://a/a/b/c/../../.././/d'' =
      Inr \<lparr>scheme = ''http'', ipAddress = None, host = ''a'', port = 80, path = [''d''],
           query = [], fragment = None, isDir = False\<rparr>"
    by code_simp
  have e2: "new_HttpURL ''http://a/a/b/c/../../.././/'' =
      Inr \<lparr>scheme = ''http'', ipAddress = None, host = ''a'', port = 80, path = [],
           query = [], fragment = None, isDir = True\<rparr>"
    by code_simp
  have e3: "new_HttpURL ''foo.com/a/../../b'' = Inl InvalidPath"
    by code_simp
  show ?thesis
    using a b c d e3 by (simp only: e1 e2 simp_thms) simp
qed

theorem C4_path_resolution_witness:
  "\<exists>u parts. new_HttpURL ''http://a/a/b/c/../../.././/d'' = Inr u
     \<and> exec regEx (replace_pctXX ''http://a/a/b/c/../../.././/d'') = Some parts
     \<and> spec_resolve [] (split CHR ''/'' (part parts 6)) = Some (path u)
     \<and> path u = [''d'']"
proof -
  obtain u where u: "new_HttpURL ''http://a/a/b/c/../../.././/d'' = Inr u" "path u = [''d'']"
    using C4_path_resolution by blast
  then show ?thesis
    using C4_path_resolution by blast
qed

section \<open>Equality of addresses\<close>

lemma compare_propagates_first:
  "fromString s = Inl e \<Longrightarrow> compare (Some (Str s)) b = Inl e"
  by (simp add: compare_def toBigInt_def)

lemma compare_propagates_second:
  "toBigInt a = Inr v \<Longrightarrow> fromString s = Inl e \<Longrightarrow> compare a (Some (Str s)) = Inl e"
  by (simp add: compare_def toBigInt_def)

text \<open>
  Claim C6. \<open>equals\<close> never throws: two \<open>null\<close> operands are equal, one \<open>null\<close> operand
  makes it false, and otherwise it is true exactly when \<open>compare\<close> returns 0; a parse
  failure of either operand is caught and gives false, while \<open>compare\<close> itself throws the
  parse error of a malformed operand.
\<close>

theorem C6_equals_total:
  "equals None None = Inr True
   \<and> equals None (Some y) = Inr False
   \<and> equals (Some x) None = Inr False
   \<and> equals (Some x) (Some y) = Inr (compare (Some x) (Some y) = Inr 0)
   \<and> (\<exists>r. equals a b = Inr r)
   \<and> (fromString s = Inl e \<longrightarrow>
        compare (Some (Str s)) b = Inl e
        \<and> equals (Some (Str s)) b = Inr False
        \<and> equals b (Some (Str s)) = Inr False)
   \<and> (toBigInt a = Inr v \<and> fromString s = Inl e \<longrightarrow> compare a (Some (Str s)) = Inl e)"
proof -
  have a1: "equals (Some x) (Some y) = Inr (compare (Some x) (Some y) = Inr 0)"
    by (auto simp: equals_def split: sum.splits)
  have a2: "\<exists>r. equals a b = Inr r"
    by (auto simp: equals_def split: sum.splits)
  have a3: "fromString s = Inl e \<Longrightarrow> equals (Some (Str s)) b = Inr False"
    by (cases b) (simp_all add: equals_def compare_propagates_first)
  have a4: "fromString s = Inl e \<Longrightarrow> equals b (Some (Str s)) = Inr False"
    by (cases b) (auto simp add: equals_def compare_def toBigInt_def split: sum.splits)
  show ?thesis
    using a1 a2 a3 a4 compare_propagates_first compare_propagates_second
    by (simp add: equals_def)
qed

theorem C6_equals_total_witness:
  "fromString ''foobar'' = Inl InvalidAddress
   \<and> toBigInt (Some (Big 1)) = Inr 1
   \<and> compare (Some (Str ''foobar'')) (Some (Big 1)) = Inl InvalidAddress
   \<and> compare (Some (Big 1)) (Some (Str ''foobar'')) = Inl InvalidAddress
   \<and> equals (Some (Str ''foobar'')) (Some (Big 1)) = Inr False
   \<and> equals (Some (Big 1)) (Some (Str ''foobar'')) = Inr False"
proof -
  have f: "fromString ''foobar'' = Inl InvalidAddress"
    by (simp add: eval_fromString eval_numbers eval_chars)
  have t: "toBigInt (Some (Big 1)) = Inr 1"
    by (simp add: toBigInt_def)
  show ?thesis
    using f t
      C6_equals_total [where s = "''foobar''" and e = InvalidAddress and b = "Some (Big 1)"
        and a = "Some (Big 1)" and v = 1]
    by simp
qed

section \<open>White space around an address\<close>

text \<open>
  Claim C9. Parsing an address strips white space first, so that a string that parses
  still parses, to the same value, with white space before it, after it or both, as
  \<open>" ::1 "\<close>. The code removes the first run of white space only: \<open>::1\<close> parses to 1, and
  \<open>" ::1 "\<close> keeps its trailing blank and is rejected.
\<close>

theorem C9_whitespace_both_sides:
  "fromString ''::1'' = Inr 1
   \<and> replace_SPACE '' ::1 '' = ''::1 ''
   \<and> fromString '' ::1 '' = Inl (InvalidIPv6Caused NotHexDigits)"
  by (simp add: eval_fromString eval_numbers eval_chars)

section \<open>The rendering of an address without a run of zero parts\<close>

text \<open>
  Claim C3. \<open>toIPv6String\<close> writes the eight parts in lower case without leading zeros,
  collapses the longest run of two or more zero parts (the leftmost of the longest), and
  joins all eight parts with colons when there is no such run. The code joins the padded
  strings \<open>hexStrs\<close> in that last case: the value of \<open>1:2:3:4:5:6:7:8\<close> is rendered with
  its leading zeros.
\<close>

theorem C3_no_run_keeps_leading_zeros:
  "fromString ''1:2:3:4:5:6:7:8'' = Inr 0x00010002000300040005000600070008
   \<and> toIPv6String 0x00010002000300040005000600070008 True
       = ''0001:0002:0003:0004:0005:0006:0007:0008''
   \<and> toIPv6String 0x00010002000300040005000600070008 True \<noteq> ''1:2:3:4:5:6:7:8''"
  by (simp add: eval_fromString eval_toString eval_numbers eval_chars)

section \<open>Digits\<close>

lemma code_char_of [simp]: "code (char_of (n::nat)) = n mod 256"
  by (simp add: code_def)

lemma hexdigit_props:
  assumes "d < 16"
  shows "hexval (hexdigit d) = d" and "is_hex (hexdigit d)"
    and "hexdigit d \<noteq> CHR '':''" and "hexdigit d \<noteq> CHR ''.''" and "\<not> is_space (hexdigit d)"
    and "hexdigit d \<noteq> CHR ''-''"
  using assms
  by (auto simp: hexdigit_def hexval_def is_hex_def is_digit_def is_space_def code_def
      char_of_eq_iff take_bit_eq_mod)

lemma decdigit_props:
  assumes "d < 10"
  shows "code (hexdigit d) - 48 = d" and "is_digit (hexdigit d)"
  using assms by (auto simp: hexdigit_def is_digit_def)

lemma hexdigit_0: "hexdigit 0 = CHR ''0''"
  by (simp add: hexdigit_def char_of_eq_iff)

lemma length_digs [simp]: "length (digs b k n) = k"
  by (induction k arbitrary: n) simp_all

lemma digs_zero: "digs b k 0 = replicate k CHR ''0''"
  by (induction k) (simp_all add: hexdigit_0 replicate_append_same)

lemma padStart_snoc: "padStart (Suc k) c (xs @ [d]) = padStart k c xs @ [d]"
  by (simp add: padStart_def)

lemma padStart_toStringRadix:
  "2 \<le> b \<Longrightarrow> n < b ^ k \<Longrightarrow> 0 < k \<Longrightarrow> padStart k CHR ''0'' (toStringRadix b n) = digs b k n"
proof (induction k arbitrary: n)
  case 0
  then show ?case by simp
next
  case (Suc k)
  show ?case
  proof (cases "n < b")
    case True
    then have "toStringRadix b n = [hexdigit n]" by (simp add: toStringRadix.simps)
    moreover have "n div b = 0" "n mod b = n" using True by simp_all
    ultimately show ?thesis by (simp add: padStart_def digs_zero)
  next
    case False
    then have ts: "toStringRadix b n = toStringRadix b (n div b) @ [hexdigit (n mod b)]"
      using Suc.prems(1) by (subst toStringRadix.simps) simp
    have lt: "n div b < b ^ k"
      using Suc.prems by (simp add: less_mult_imp_div_less mult.commute)
    have "0 < k"
    proof (rule ccontr)
      assume "\<not> 0 < k"
      then have "n < b" using Suc.prems by simp
      then show False using False by simp
    qed
    then show ?thesis
      using Suc.IH [OF Suc.prems(1) lt] by (simp add: ts padStart_snoc)
  qed
qed

lemma parseInt16_snoc: "parseInt16 (xs @ [c]) = 16 * parseInt16 xs + hexval c"
  by (simp add: parseInt16_def)

lemma parseInt10_snoc: "parseInt10 (xs @ [c]) = 10 * parseInt10 xs + (code c - 48)"
  by (simp add: parseInt10_def)

lemma parseInt16_digs: "parseInt16 (digs 16 k n) = n mod 16 ^ k"
proof (induction k arbitrary: n)
  case 0
  show ?case by (simp add: parseInt16_def)
next
  case (Suc k)
  have "hexval (hexdigit (n mod 16)) = n mod 16"
    by (rule hexdigit_props) simp
  then show ?case
    by (simp add: parseInt16_snoc Suc.IH mod_mult2_eq)
qed

lemma parseInt16_toStringRadix: "parseInt16 (toStringRadix 16 n) = n"
proof (induction n rule: less_induct)
  case (less n)
  show ?case
  proof (cases "n < 16")
    case True
    then show ?thesis
      by (simp add: toStringRadix.simps parseInt16_def hexdigit_props)
  next
    case False
    then have ts: "toStringRadix 16 n = toStringRadix 16 (n div 16) @ [hexdigit (n mod 16)]"
      by (subst toStringRadix.simps) simp
    have "n div 16 < n" using False by simp
    then have "parseInt16 (toStringRadix 16 (n div 16)) = n div 16" by (rule less.IH)
    moreover have "hexval (hexdigit (n mod 16)) = n mod 16"
      by (rule hexdigit_props) simp
    ultimately show ?thesis by (simp add: ts parseInt16_snoc)
  qed
qed

lemma parseInt10_toStringRadix: "parseInt10 (toStringRadix 10 n) = n"
proof (induction n rule: less_induct)
  case (less n)
  show ?case
  proof (cases "n < 10")
    case True
    then show ?thesis
      by (simp add: toStringRadix.simps parseInt10_def decdigit_props)
  next
    case False
    then have ts: "toStringRadix 10 n = toStringRadix 10 (n div 10) @ [hexdigit (n mod 10)]"
      by (subst toStringRadix.simps) simp
    have "n div 10 < n" using False by simp
    then have "parseInt10 (toStringRadix 10 (n div 10)) = n div 10" by (rule less.IH)
    moreover have "code (hexdigit (n mod 10)) - 48 = n mod 10"
      by (rule decdigit_props) simp
    ultimately show ?thesis by (simp add: ts parseInt10_snoc)
  qed
qed

lemma toStringRadix_not_Nil [simp]: "toStringRadix b n \<noteq> []"
  by (subst toStringRadix.simps) simp

lemma toStringRadix16_hex: "c \<in> set (toStringRadix 16 n) \<Longrightarrow> \<exists>d<16. c = hexdigit d"
proof (induction n rule: less_induct)
  case (less n)
  show ?case
  proof (cases "n < 16")
    case True
    then show ?thesis using less.prems by (auto simp: toStringRadix.simps)
  next
    case False
    then have ts: "toStringRadix 16 n = toStringRadix 16 (n div 16) @ [hexdigit (n mod 16)]"
      by (subst toStringRadix.simps) simp
    have "n div 16 < n" using False by simp
    then show ?thesis
      using less.IH [of "n div 16"] less.prems
      by (auto simp: ts intro: exI [of _ "n mod 16"])
  qed
qed

lemma toStringRadix10_dec: "c \<in> set (toStringRadix 10 n) \<Longrightarrow> \<exists>d<10. c = hexdigit d"
proof (induction n rule: less_induct)
  case (less n)
  show ?case
  proof (cases "n < 10")
    case True
    then show ?thesis using less.prems by (auto simp: toStringRadix.simps)
  next
    case False
    then have ts: "toStringRadix 10 n = toStringRadix 10 (n div 10) @ [hexdigit (n mod 10)]"
      by (subst toStringRadix.simps) simp
    have "n div 10 < n" using False by simp
    then show ?thesis
      using less.IH [of "n div 10"] less.prems
      by (auto simp: ts intro: exI [of _ "n mod 10"])
  qed
qed

lemma digs16_hex: "c \<in> set (digs 16 k n) \<Longrightarrow> \<exists>d<16. c = hexdigit d"
  by (induction k arbitrary: n) (auto intro: exI [of _ "n mod 16" for n])

lemma digs_add: "digs b (j + k) n = digs b j (n div b ^ k) @ digs b k n"
  by (induction k arbitrary: n) (simp_all add: div_mult2_eq)

lemma digs_mod: "digs b k (n mod b ^ k) = digs b k n"
proof (induction k arbitrary: n)
  case 0
  show ?case by simp
next
  case (Suc k)
  have "(n mod (b * b ^ k)) div b = (n div b) mod b ^ k"
    by (cases "b = 0") (simp_all add: mod_mult2_eq)
  moreover have "n mod (b * b ^ k) mod b = n mod b"
    by (simp add: mod_mod_cancel)
  ultimately show ?case using Suc.IH [of "n div b"] by simp
qed

lemma digs_groups16: "digs 16 (4 * k) n = concat (map (digs 16 4) (groups16 k n))"
proof (induction k arbitrary: n)
  case 0
  show ?case by simp
next
  case (Suc k)
  have "digs 16 (4 * Suc k) n = digs 16 (4 * k + 4) n" by (simp add: add.commute)
  also have "\<dots> = digs 16 (4 * k) (n div 16 ^ 4) @ digs 16 4 n" by (rule digs_add)
  finally show ?case using digs_mod [of 16 4 n] by (simp add: Suc.IH)
qed

section \<open>IPv4 addresses among the values\<close>

lemma isIPv4_iff:
  assumes "0 \<le> v" "v < 2 ^ 128"
  shows "isIPv4 v = (v div 2 ^ 32 = 0xFFFF)"
proof -
  have m: "IPV4MASK = push_bit 32 (mask 96)"
    by (simp add: IPV4MASK_def mask_eq_exp_minus_1 push_bit_eq_mult)
  have p: "IPV4PREFIX = push_bit 32 0xFFFF"
    by (simp add: IPV4PREFIX_def push_bit_eq_mult)
  have "and IPV4MASK v = push_bit 32 (take_bit 96 (drop_bit 32 v))"
    unfolding m
    by (rule bit_eqI) (auto simp add: bit_simps)
  moreover have "take_bit 96 (drop_bit 32 v) = drop_bit 32 v"
  proof -
    have "drop_bit 32 v < 2 ^ 96"
      using assms by (simp add: drop_bit_eq_div) 
    moreover have "0 \<le> drop_bit 32 v" using assms by simp
    ultimately show ?thesis by (simp add: take_bit_int_eq_self)
  qed
  ultimately have "and IPV4MASK v = push_bit 32 (drop_bit 32 v)" by simp
  then have "isIPv4 v = (push_bit 32 (drop_bit 32 v) = push_bit 32 (0xFFFF :: int))"
    by (auto simp add: isIPv4_def p)
  also have "\<dots> = (drop_bit 32 v = 0xFFFF)"
    by (simp add: push_bit_eq_mult)
  finally show ?thesis by (simp add: drop_bit_eq_div)
qed

lemma toStringRadix_split:
  "0 < a \<Longrightarrow> w < 16 ^ k \<Longrightarrow>
     toStringRadix 16 (a * 16 ^ k + w) = toStringRadix 16 a @ digs 16 k w"
proof (induction k arbitrary: w)
  case 0
  then show ?case by simp
next
  case (Suc k)
  let ?n = "a * 16 ^ Suc k + w"
  have ge: "\<not> ?n < 16" using Suc.prems(1) by (simp add: not_less trans_le_add1)
  have ts: "toStringRadix 16 ?n = toStringRadix 16 (?n div 16) @ [hexdigit (?n mod 16)]"
    using ge by (subst toStringRadix.simps) simp
  have e: "?n = 16 * (a * 16 ^ k) + w" by simp
  have d: "?n div 16 = a * 16 ^ k + w div 16" unfolding e by simp
  have m: "?n mod 16 = w mod 16" unfolding e by simp
  have "w div 16 < 16 ^ k" using Suc.prems(2) by (simp add: less_mult_imp_div_less mult.commute)
  then show ?case
    using Suc.IH [OF Suc.prems(1), of "w div 16"] by (simp only: ts d m digs.simps append_assoc)
qed

lemma match_HEX2_pair:
  "is_hex a \<Longrightarrow> is_hex b \<Longrightarrow> match_HEX2 (a # b # rest) = [a, b] # match_HEX2 rest"
  by simp

lemma match_HEX4_quad:
  "is_hex a \<Longrightarrow> is_hex b \<Longrightarrow> is_hex c \<Longrightarrow> is_hex d \<Longrightarrow>
     match_HEX4 (a # b # c # d # rest) = [a, b, c, d] # match_HEX4 rest"
  by simp

lemma digs_2: "digs b 2 n = [hexdigit (n div b mod b), hexdigit (n mod b)]"
  by (simp add: numeral_2_eq_2)

lemma digs16_2_app:
  "match_HEX2 (digs 16 2 n @ rest) = digs 16 2 n # match_HEX2 rest"
  by (simp add: digs_2 hexdigit_props)

lemma digs_8_pairs:
  "digs 16 8 w = digs 16 2 (w div 2 ^ 24) @ digs 16 2 (w div 2 ^ 16) @ digs 16 2 (w div 2 ^ 8)
     @ digs 16 2 w"
proof -
  have "digs 16 8 w = digs 16 (6 + 2) w" by simp
  also have "\<dots> = digs 16 6 (w div 16 ^ 2) @ digs 16 2 w" by (rule digs_add)
  also have "digs 16 6 (w div 16 ^ 2) = digs 16 (4 + 2) (w div 16 ^ 2)" by simp
  also have "\<dots> = digs 16 4 (w div 16 ^ 2 div 16 ^ 2) @ digs 16 2 (w div 16 ^ 2)" by (rule digs_add)
  also have "digs 16 4 (w div 16 ^ 2 div 16 ^ 2) = digs 16 (2 + 2) (w div 16 ^ 2 div 16 ^ 2)" by simp
  also have "\<dots> = digs 16 2 (w div 16 ^ 2 div 16 ^ 2 div 16 ^ 2) @ digs 16 2 (w div 16 ^ 2 div 16 ^ 2)"
    by (rule digs_add)
  finally show ?thesis by (simp add: div_mult2_eq [symmetric])
qed

lemma toStringRadix_ffff: "toStringRadix 16 0xFFFF = ''ffff''"
  by (simp add: toStringRadix.simps hexdigit_def char_of_eq_iff)

lemma dotDecimal_ipv4:
  assumes "0 \<le> v" "v div 2 ^ 32 = 0xFFFF"
  shows "dotDecimal v = ipv4_text (nat (v mod 2 ^ 32))"
proof -
  define w where "w = nat (v mod 2 ^ 32)"
  have w: "w < 16 ^ 8" by (simp add: w_def nat_less_iff)
  have "v = 0xFFFF * 2 ^ 32 + v mod 2 ^ 32"
    using assms(2) div_mult_mod_eq [of v "2 ^ 32"] by simp
  then have nv: "nat v = 0xFFFF * 16 ^ 8 + w"
    using assms(1) by (simp add: w_def nat_add_distrib nat_mult_distrib)
  have ts: "toString16 v = ''ffff'' @ digs 16 8 w"
    using assms(1) toStringRadix_split [of "0xFFFF" w 8] w
    by (simp add: toString16_def nv toStringRadix_ffff)
  have hx: "match_HEX2 (toString16 v) =
      [''ff'', ''ff'', digs 16 2 (w div 2 ^ 24), digs 16 2 (w div 2 ^ 16), digs 16 2 (w div 2 ^ 8),
       digs 16 2 w]"
    unfolding ts digs_8_pairs
    using digs16_2_app [of w "[]"]
    by (simp add: digs16_2_app is_hex_def is_digit_def code_def)
  have pi: "\<And>n. parseInt16 (digs 16 2 n) = n mod 256"
    using parseInt16_digs [of 2] by simp
  show ?thesis
    unfolding dotDecimal_def hx ipv4_text_def Let_def slice_last4_def w_def [symmetric]
    by (simp add: pi)
qed




section \<open>Splitting, joining and the scan for colons\<close>

lemma splitAcc_nosep: "sep \<notin> set s \<Longrightarrow> splitAcc sep cur s = [cur @ s]"
  by (induction s arbitrary: cur) auto

lemma splitAcc_app:
  "sep \<notin> set p \<Longrightarrow> splitAcc sep cur (p @ sep # rest) = (cur @ p) # splitAcc sep [] rest"
  by (induction p arbitrary: cur) auto



lemma split_join:
  "ps \<noteq> [] \<Longrightarrow> \<forall>p\<in>set ps. sep \<notin> set p \<Longrightarrow> split sep (join [sep] ps) = ps"
proof (induction ps rule: induct_list012)
  case 1
  then show ?case by simp
next
  case (2 x)
  then show ?case by (simp add: split_def splitAcc_nosep)
next
  case (3 x y zs)
  then have "splitAcc sep [] (join [sep] (y # zs)) = y # zs" by (simp add: split_def)
  then show ?case using 3 by (simp add: split_def splitAcc_app)
qed

lemma join_append:
  "xs \<noteq> [] \<Longrightarrow> ys \<noteq> [] \<Longrightarrow> join sep (xs @ ys) = join sep xs @ sep @ join sep ys"
proof (induction xs rule: induct_list012)
  case 1
  then show ?case by simp
next
  case (2 x)
  then show ?case by (cases ys) simp_all
next
  case (3 x y zs)
  then show ?case by simp
qed

lemma join_replicate_app:
  "ys \<noteq> [] \<Longrightarrow> join sep (replicate m z @ ys) = concat (replicate m (z @ sep)) @ join sep ys"
proof (induction m)
  case 0
  then show ?case by simp
next
  case (Suc m)
  then have "join sep (replicate (Suc m) z @ ys) = z @ sep @ join sep (replicate m z @ ys)"
    by (cases "replicate m z @ ys") simp_all
  then show ?case using Suc by simp
qed

lemma set_join: "set (join sep ps) \<subseteq> set sep \<union> \<Union> (set ` set ps)"
  by (induction ps rule: induct_list012) auto

lemma join_eq_Nil: "\<forall>p\<in>set ps. p \<noteq> [] \<Longrightarrow> ps \<noteq> [] \<Longrightarrow> join sep ps \<noteq> []"
  by (induction ps rule: induct_list012) auto

lemma hd_join: "ps \<noteq> [] \<Longrightarrow> hd ps \<noteq> [] \<Longrightarrow> hd (join sep ps @ rest) = hd (hd ps)"
  by (induction ps rule: induct_list012) auto

lemma join_not_Nil: "ps \<noteq> [] \<Longrightarrow> last ps \<noteq> [] \<Longrightarrow> join sep ps \<noteq> []"
  by (induction ps rule: induct_list012) auto

lemma last_join:
  "ps \<noteq> [] \<Longrightarrow> last ps \<noteq> [] \<Longrightarrow> last (join sep ps) = last (last ps)"
proof (induction ps rule: induct_list012)
  case 1
  then show ?case by simp
next
  case (2 x)
  then show ?case by simp
next
  case (3 x y zs)
  then have "join sep (y # zs) \<noteq> []" using join_not_Nil [of "y # zs" sep] by simp
  then show ?case using 3 by simp
qed

lemma count_join:
  "\<forall>p\<in>set ps. CHR '':'' \<notin> set p \<Longrightarrow> matchCount_COLON (join '':'' ps) = length ps - 1"
proof (induction ps rule: induct_list012)
  case 1
  then show ?case by (simp add: matchCount_COLON_def)
next
  case (2 x)
  then have "filter (\<lambda>c. c = CHR '':'') x = []" by (auto simp: filter_empty_conv)
  then show ?case by (simp add: matchCount_COLON_def)
next
  case (3 x y zs)
  then have "filter (\<lambda>c. c = CHR '':'') x = []" by (auto simp: filter_empty_conv)
  then show ?case using 3 by (simp add: matchCount_COLON_def)
qed

text \<open>The scan for \<open>::\<close> passes over a piece without colon, and over a single colon.\<close>

lemma matchCount_COLONS_piece:
  "CHR '':'' \<notin> set p \<Longrightarrow> matchCount_COLONS (p @ rest) = matchCount_COLONS rest"
proof (induction p)
  case Nil
  show ?case by simp
next
  case (Cons a p)
  then show ?case by (cases "p @ rest") auto
qed

lemma replace_COLONS_piece:
  "CHR '':'' \<notin> set p \<Longrightarrow> replace_COLONS r (p @ rest) = p @ replace_COLONS r rest"
proof (induction p)
  case Nil
  show ?case by simp
next
  case (Cons a p)
  then show ?case by (cases "p @ rest") auto
qed

lemma matchCount_COLONS_colon:
  "rest = [] \<or> hd rest \<noteq> CHR '':'' \<Longrightarrow>
     matchCount_COLONS (CHR '':'' # rest) = matchCount_COLONS rest"
  by (cases rest) auto

lemma replace_COLONS_colon:
  "rest = [] \<or> hd rest \<noteq> CHR '':'' \<Longrightarrow>
     replace_COLONS r (CHR '':'' # rest) = CHR '':'' # replace_COLONS r rest"
  by (cases rest) auto




section \<open>The expansion of the elision\<close>

lemma matchCount_COLON_append:
  "matchCount_COLON (xs @ ys) = matchCount_COLON xs + matchCount_COLON ys"
  by (simp add: matchCount_COLON_def)




section \<open>The groups the loop accepts\<close>

lemma hexval_less: "is_hex c \<Longrightarrow> hexval c < 16"
  by (auto simp: is_hex_def hexval_def is_digit_def)

lemma parseInt16_bound: "list_all is_hex p \<Longrightarrow> parseInt16 p < 16 ^ length p"
proof (induction p rule: rev_induct)
  case Nil
  show ?case by (simp add: parseInt16_def)
next
  case (snoc c p)
  then have "parseInt16 p < 16 ^ length p" "hexval c < 16"
    by (simp_all add: hexval_less)
  then have "16 * parseInt16 p + hexval c < 16 * 16 ^ length p"
    by arith
  then show ?case by (simp add: parseInt16_snoc)
qed


lemma length_pad4: "g \<le> 0xFFFF \<Longrightarrow> padStart 4 CHR ''0'' (toString16 (int g)) = digs 16 4 g"
  using padStart_toStringRadix [of 16 g 4] by (simp add: toString16_def)

lemma parseHex_code_group:
  "code_group p \<Longrightarrow> parseHex p = Inr (parseInt16 p)"
  by (simp add: code_group_def parseHex_def HEXREGEX_test_def isFinite_def)






section \<open>The rendering of a value, part by part\<close>

lemma streak_inv_step:
  "streak_inv seen st \<Longrightarrow> streak_inv (seen @ [g]) (streakStep (int (length seen)) g st)"
  by (auto simp add: streak_inv_def streakStep_def Let_def nth_append split: if_splits)

lemma streakLoop_inv:
  "streak_inv seen st \<Longrightarrow> streak_inv (seen @ rest) (streakLoop (int (length seen)) rest st)"
proof (induction rest arbitrary: seen st)
  case Nil
  then show ?case by simp
next
  case (Cons g rest)
  have "streak_inv ((seen @ [g]) @ rest)
          (streakLoop (int (length (seen @ [g]))) rest (streakStep (int (length seen)) g st))"
    by (rule Cons.IH) (rule streak_inv_step [OF Cons.prems])
  then show ?case by (simp add: add.commute)
qed

lemma streak_inv_start: "streak_inv [] streaks0"
  by (simp add: streak_inv_def streaks0_def)

lemma streakLoop_result: "streak_inv gs (streakLoop 0 gs streaks0)"
  using streakLoop_inv [OF streak_inv_start, of gs] by simp

lemma digs_4:
  "digs b 4 n = [hexdigit (n div b div b div b mod b), hexdigit (n div b div b mod b),
                 hexdigit (n div b mod b), hexdigit (n mod b)]"
  by (simp add: numeral_eq_Suc)

lemma match_HEX4_digs: "match_HEX4 (digs 16 4 g @ rest) = digs 16 4 g # match_HEX4 rest"
  by (simp add: digs_4 hexdigit_props)

lemma match_HEX4_groups:
  "match_HEX4 (concat (map (digs 16 4) gs)) = map (digs 16 4) gs"
  by (induction gs) (simp_all add: match_HEX4_digs)

lemma length_groups16 [simp]: "length (groups16 k n) = k"
  by (induction k arbitrary: n) simp_all

lemma groups16_bound: "g \<in> set (groups16 k n) \<Longrightarrow> g < 65536"
  by (induction k arbitrary: n) auto

lemma parseInt16_digs4: "g < 65536 \<Longrightarrow> parseInt16 (digs 16 4 g) = g"
  using parseInt16_digs [of 4 g] by simp

lemma hexStr_groups:
  assumes "n < 2 ^ 128"
  shows "padStart 32 CHR ''0'' (toString16 (int n)) = concat (map (digs 16 4) (groups16 8 n))"
proof -
  have "n < 16 ^ 32" using assms by simp
  then have "padStart 32 CHR ''0'' (toStringRadix 16 n) = digs 16 32 n"
    by (intro padStart_toStringRadix) simp_all
  moreover have "digs 16 32 n = concat (map (digs 16 4) (groups16 8 n))"
    using digs_groups16 [of 8 n] by simp
  ultimately show ?thesis by (simp add: toString16_def)
qed

lemma concat_then_colon:
  "concat (map (\<lambda>p. f p @ '':'') xs) = (if xs = [] then [] else join '':'' (map f xs) @ '':'')"
  by (induction xs rule: induct_list012) simp_all

lemma concat_colon_then:
  "concat (map (\<lambda>p. CHR '':'' # f p) xs) =
     (if xs = [] then [] else CHR '':'' # join '':'' (map f xs))"
  by (induction xs rule: induct_list012) simp_all

lemma elide_join:
  "(if A = [] then '':'' else [])
   @ concat (map (\<lambda>p. f p @ '':'') A)
   @ concat (map (\<lambda>p. '':'' @ f p) B)
   @ (if B = [] then '':'' else [])
   = join '':'' (map f A) @ ''::'' @ join '':'' (map f B)"
  by (simp add: concat_then_colon concat_colon_then)

text \<open>The two forms of \<open>collapse\<close>: the padded parts joined, or the parts before the
  longest run of zero parts, \<open>::\<close>, and the parts behind it.\<close>

lemma collapse_shape:
  assumes "n < 2 ^ 128"
  shows "collapse (int n) = join '':'' (map (digs 16 4) (groups16 8 n))
     \<or> (\<exists>ga gb k. groups16 8 n = ga @ replicate k 0 @ gb \<and> 2 \<le> k
          \<and> collapse (int n) =
              join '':'' (map (\<lambda>g. toString16 (int g)) ga) @ ''::''
              @ join '':'' (map (\<lambda>g. toString16 (int g)) gb))"
proof -
  define gs where "gs = groups16 8 n"
  define st where "st = streakLoop 0 gs streaks0"
  have len: "length gs = 8" by (simp add: gs_def)
  have hs: "take 8 (match_HEX4 (padStart 32 CHR ''0'' (toString16 (int n)))) = map (digs 16 4) gs"
    by (simp add: hexStr_groups [OF assms] match_HEX4_groups gs_def)
  have ip: "map parseInt16 (map (digs 16 4) gs) = gs"
  proof -
    have "\<And>g. g \<in> set gs \<Longrightarrow> parseInt16 (digs 16 4 g) = g"
      using groups16_bound parseInt16_digs4 by (auto simp: gs_def)
    then show ?thesis by (simp add: map_idI)
  qed
  have inv: "streak_inv gs st" using streakLoop_result by (simp add: st_def)
  have c: "collapse (int n) =
     (if longest_streak st \<le> 1 then join '':'' (map (digs 16 4) gs)
      else
        (if longest_start st = 0 then '':'' else [])
        @ concat (map (\<lambda>p. toString16 (int p) @ '':'') (take (nat (longest_start st)) gs))
        @ concat (map (\<lambda>p. '':'' @ toString16 (int p))
             (drop (nat (longest_start st) + longest_streak st) gs))
        @ (if longest_start st + int (longest_streak st) = 8 then '':'' else []))"
    unfolding collapse_def Let_def hs ip st_def [symmetric] by (rule refl)
  show ?thesis
  proof (cases "longest_streak st \<le> 1")
    case True
    then have "collapse (int n) = join '':'' (map (digs 16 4) gs)"
      by (simp only: c if_True)
    then show ?thesis by (simp add: gs_def)
  next
    case False
    define s where "s = nat (longest_start st)"
    define k where "k = longest_streak st"
    have k2: "2 \<le> k" using False by (simp add: k_def)
    have s0: "0 \<le> longest_start st" and sk: "s + k \<le> 8"
      and z: "\<And>j. s \<le> j \<Longrightarrow> j < s + k \<Longrightarrow> gs ! j = 0"
      using inv False len by (auto simp: streak_inv_def s_def k_def split: if_splits)
    have mid: "take k (drop s gs) = replicate k 0"
    proof (rule nth_equalityI)
      show "length (take k (drop s gs)) = length (replicate k (0::nat))"
        using sk len by simp
    next
      fix i assume "i < length (take k (drop s gs))"
      then have "i < k" by simp
      then show "take k (drop s gs) ! i = replicate k (0::nat) ! i"
        using z [of "s + i"] sk len by simp
    qed
    have "gs = take s gs @ take k (drop s gs) @ drop (s + k) gs"
      by (metis append_take_drop_id drop_drop add.commute)
    then have dec: "gs = take s gs @ replicate k 0 @ drop (s + k) gs"
      by (simp only: mid)
    have e1: "(longest_start st = 0) = (s = 0)" using s0 by (auto simp: s_def)
    have e2: "(longest_start st + int (longest_streak st) = 8) = (s + k = 8)"
      using s0 by (auto simp: s_def k_def)
    have e3: "(longest_start st + int k = 8) = (s + k = 8)"
      using s0 by (auto simp: s_def k_def)
    have t0: "(s = 0) = (take s gs = [])" using len by auto
    have d0: "(s + k = 8) = (drop (s + k) gs = [])" using len sk by auto
    have "collapse (int n) =
        (if s = 0 then '':'' else [])
        @ concat (map (\<lambda>p. toString16 (int p) @ '':'') (take s gs))
        @ concat (map (\<lambda>p. '':'' @ toString16 (int p)) (drop (s + k) gs))
        @ (if s + k = 8 then '':'' else [])"
      using False
      by (simp only: c if_False e1 e2 e3 s_def [symmetric] k_def [symmetric])
    also have "\<dots> = join '':'' (map (\<lambda>g. toString16 (int g)) (take s gs)) @ ''::''
              @ join '':'' (map (\<lambda>g. toString16 (int g)) (drop (s + k) gs))"
      by (simp only: t0 d0 elide_join)
    finally have "groups16 8 n = take s gs @ replicate k 0 @ drop (s + k) gs \<and> 2 \<le> k
          \<and> collapse (int n) =
              join '':'' (map (\<lambda>g. toString16 (int g)) (take s gs)) @ ''::''
              @ join '':'' (map (\<lambda>g. toString16 (int g)) (drop (s + k) gs))"
      using dec k2 by (simp add: gs_def [symmetric])
    then show ?thesis by blast
  qed
qed

section \<open>Parsing what \<open>toIPv6String\<close> writes\<close>

lemma hexblock_chars:
  assumes "hexblock p g" "c \<in> set p"
  shows "is_hex c" "c \<noteq> CHR '':''" "c \<noteq> CHR ''.''" "\<not> is_space c"
proof -
  obtain d where "d < 16" "c = hexdigit d"
    using assms by (auto simp: hexblock_def)
  then show "is_hex c" "c \<noteq> CHR '':''" "c \<noteq> CHR ''.''" "\<not> is_space c"
    using hexdigit_props [of d] by simp_all
qed

lemma hexblock_code_group: "hexblock p g \<Longrightarrow> code_group p \<and> parseInt16 p = g"
  using hexblock_chars(1) by (auto simp: hexblock_def code_group_def list_all_iff)

lemma hexdigit_image: "\<exists>d<16. c = hexdigit d \<Longrightarrow> c \<in> hexdigit ` {0..<16}"
  by auto

lemma hexblock_toString16: "g \<le> 0xFFFF \<Longrightarrow> hexblock (toString16 (int g)) g"
proof -
  assume g: "g \<le> 0xFFFF"
  have "set (toStringRadix 16 g) \<subseteq> hexdigit ` {0..<16}"
    using toStringRadix16_hex hexdigit_image by blast
  then show ?thesis
    using g by (simp add: hexblock_def toString16_def parseInt16_toStringRadix)
qed

lemma hexblock_digs: "g < 65536 \<Longrightarrow> hexblock (digs 16 4 g) g"
proof -
  assume g: "g < 65536"
  have "set (digs 16 4 g) \<subseteq> hexdigit ` {0..<16}"
    using digs16_hex hexdigit_image by blast
  moreover have "digs 16 4 g \<noteq> []"
    by (simp add: digs_4)
  ultimately show ?thesis
    using g by (simp add: hexblock_def parseInt16_digs4)
qed

lemma hexblock_zero: "hexblock ''0'' 0"
  using hexblock_toString16 [of 0]
  by (simp add: toString16_def toStringRadix.simps hexdigit_0)

lemma partLoop_hexblocks:
  "list_all2 hexblock ps gs \<Longrightarrow>
     partLoop ps h = Inr (concat (map (digs 16 4) (rev gs)) @ h)"
proof (induction ps gs arbitrary: h rule: list_all2_induct)
  case Nil
  show ?case by simp
next
  case (Cons p ps g gs)
  have cg: "code_group p" and pg: "parseInt16 p = g"
    using hexblock_code_group [OF Cons.hyps(1)] by simp_all
  have le: "g \<le> 0xFFFF" and ne: "p \<noteq> []"
    using Cons.hyps(1) by (simp_all add: hexblock_def)
  show ?case
    using ne le
    by (simp add: parseHex_code_group [OF cg] pg length_pad4 Cons.IH)
qed

lemma replace_SPACE_id: "\<forall>c\<in>set s. \<not> is_space c \<Longrightarrow> replace_SPACE s = s"
proof -
  assume a: "\<forall>c\<in>set s. \<not> is_space c"
  have t: "takeWhile (\<lambda>c. \<not> is_space c) s = s" using a by (induction s) auto
  have d: "dropWhile (\<lambda>c. \<not> is_space c) s = []" using a by (induction s) auto
  show ?thesis by (simp only: replace_SPACE_def t d) simp
qed

lemma indexOf_zero: "(indexOf c s = 0) = (s \<noteq> [] \<and> hd s = c)"
  by (cases s) (auto simp: indexOf_def)

lemma indexOf_nonneg: "c \<in> set s \<Longrightarrow> \<not> indexOf c s < 0"
  by (simp add: indexOf_def)

lemma lastIndexOf_none: "c \<notin> set s \<Longrightarrow> \<not> 0 < lastIndexOf c s"
  by (simp add: lastIndexOf_def)

lemma length_takeWhile_neq:
  "c \<in> set xs \<Longrightarrow> length (takeWhile (\<lambda>y. y \<noteq> c) xs) < length xs"
  by (induction xs) auto

lemma lastIndexOf_pos: "c \<in> set (tl s) \<Longrightarrow> 0 < lastIndexOf c s"
proof (cases s)
  case Nil
  assume "c \<in> set (tl s)"
  then show ?thesis using Nil by simp
next
  case (Cons x xs)
  assume "c \<in> set (tl s)"
  then have c: "c \<in> set xs" using Cons by simp
  then have "takeWhile (\<lambda>y. y \<noteq> c) (rev xs @ [x]) = takeWhile (\<lambda>y. y \<noteq> c) (rev xs)"
    by (intro takeWhile_append1 [of c]) auto
  moreover have "length (takeWhile (\<lambda>y. y \<noteq> c) (rev xs)) < length (rev xs)"
    using c by (intro length_takeWhile_neq) auto
  ultimately show ?thesis using Cons c by (simp add: lastIndexOf_def)
qed

lemma matchCount_COLONS_join:
  "\<forall>p\<in>set ps. p \<noteq> [] \<and> CHR '':'' \<notin> set p \<Longrightarrow>
     matchCount_COLONS (join '':'' ps @ rest) = matchCount_COLONS rest"
proof (induction ps rule: induct_list012)
  case 1
  show ?case by simp
next
  case (2 x)
  then show ?case by (simp add: matchCount_COLONS_piece)
next
  case (3 x y zs)
  have "hd (join '':'' (y # zs) @ rest) = hd y"
    using 3(3) hd_join [of "y # zs" "'':''" rest] by simp
  moreover have "hd y \<noteq> CHR '':''" using 3(3) by (cases y) auto
  ultimately have "matchCount_COLONS (CHR '':'' # (join '':'' (y # zs) @ rest))
      = matchCount_COLONS (join '':'' (y # zs) @ rest)"
    by (intro matchCount_COLONS_colon) simp
  then show ?case using 3 by (simp add: matchCount_COLONS_piece)
qed

lemma replace_COLONS_join:
  "\<forall>p\<in>set ps. p \<noteq> [] \<and> CHR '':'' \<notin> set p \<Longrightarrow>
     replace_COLONS r (join '':'' ps @ rest) = join '':'' ps @ replace_COLONS r rest"
proof (induction ps rule: induct_list012)
  case 1
  show ?case by simp
next
  case (2 x)
  then show ?case by (simp add: replace_COLONS_piece)
next
  case (3 x y zs)
  have "hd (join '':'' (y # zs) @ rest) = hd y"
    using 3(3) hd_join [of "y # zs" "'':''" rest] by simp
  moreover have "hd y \<noteq> CHR '':''" using 3(3) by (cases y) auto
  ultimately have "replace_COLONS r (CHR '':'' # (join '':'' (y # zs) @ rest))
      = CHR '':'' # replace_COLONS r (join '':'' (y # zs) @ rest)"
    by (intro replace_COLONS_colon) simp
  then show ?case using 3 by (simp add: replace_COLONS_piece)
qed

lemma last_zeros: "0 < m \<Longrightarrow> last (concat (replicate m ''0:'')) = CHR '':''"
proof (induction m)
  case 0
  then show ?case by simp
next
  case (Suc m)
  show ?case
  proof (cases "m = 0")
    case True
    then show ?thesis by simp
  next
    case False
    then have "concat (replicate m ''0:'') \<noteq> []" by (cases m) auto
    then show ?thesis using Suc False by simp
  qed
qed

lemma last_colon_zeros: "last (xs @ '':'' @ concat (replicate m ''0:'')) = CHR '':''"
proof (cases "m = 0")
  case True
  then show ?thesis by simp
next
  case False
  then have "concat (replicate m ''0:'') \<noteq> []" by (cases m) auto
  then show ?thesis using False last_zeros [of m] by simp
qed

lemma patchEnds_expanded:
  assumes A: "\<forall>p\<in>set A. p \<noteq> [] \<and> CHR '':'' \<notin> set p"
    and B: "\<forall>p\<in>set B. p \<noteq> [] \<and> CHR '':'' \<notin> set p"
  shows "patchEnds (join '':'' A @ '':'' @ concat (replicate m ''0:'') @ join '':'' B)
     = join '':'' ((if A = [] then [''0''] else A) @ replicate m ''0''
                    @ (if B = [] then [''0''] else B))"
proof -
  define E where "E = join '':'' A @ '':'' @ concat (replicate m ''0:'') @ join '':'' B"
  define A' where "A' = (if A = [] then [''0''] else A)"
  define B' where "B' = (if B = [] then [''0''] else B)"
  have A'ne: "A' \<noteq> []" and B'ne: "B' \<noteq> []" by (simp_all add: A'_def B'_def)
  have first: "(indexOf CHR '':'' E = 0) = (A = [])"
  proof (cases "A = []")
    case True
    then show ?thesis by (simp add: indexOf_zero E_def)
  next
    case False
    then have "hd A \<noteq> []" "CHR '':'' \<notin> set (hd A)" using A by simp_all
    then have "hd (hd A) \<noteq> CHR '':''" by (cases "hd A") auto
    moreover have "hd E = hd (hd A)"
      unfolding E_def using hd_join [OF False \<open>hd A \<noteq> []\<close>] by simp
    ultimately show ?thesis using False by (simp add: indexOf_zero)
  qed
  define V where "V = (if A = [] then CHR ''0'' # E else E)"
  have Vne: "V \<noteq> []" by (simp add: V_def E_def)
  have lastV: "(last V = CHR '':'') = (B = [])"
  proof (cases "B = []")
    case True
    have "last E = CHR '':''"
      unfolding E_def using True last_colon_zeros [of "join '':'' A" m] by simp
    moreover have "E \<noteq> []" by (simp add: E_def)
    ultimately show ?thesis using True by (simp add: V_def)
  next
    case False
    then have l: "last B \<noteq> []" "CHR '':'' \<notin> set (last B)" using B by simp_all
    then have "last (last B) \<noteq> CHR '':''" by (metis last_in_set)
    moreover have "join '':'' B \<noteq> []" using join_not_Nil [OF False l(1)] .
    then have "last V = last (join '':'' B)" by (simp add: V_def E_def)
    moreover have "last (join '':'' B) = last (last B)" using last_join [OF False l(1)] .
    ultimately show ?thesis using False by simp
  qed
  have pe: "patchEnds E = (if B = [] then V @ ''0'' else V)"
    using first lastV Vne by (simp add: patchEnds_def Let_def V_def)
  have jA: "join '':'' A' = (if A = [] then ''0'' else join '':'' A)" by (simp add: A'_def)
  have jB: "join '':'' B' = (if B = [] then ''0'' else join '':'' B)" by (simp add: B'_def)
  have "join '':'' (A' @ replicate m ''0'' @ B')
      = join '':'' A' @ '':'' @ concat (replicate m ''0:'') @ join '':'' B'"
    using A'ne B'ne join_replicate_app [OF B'ne, of "'':''" m "''0''"]
    by (simp add: join_append)
  also have "\<dots> = (if B = [] then V @ ''0'' else V)"
    by (simp add: jA jB V_def E_def)
  finally show ?thesis
    using pe by (simp add: E_def A'_def B'_def)
qed

lemma zero_pad_parts:
  assumes "length A + length B \<le> 6"
  shows "(if A = [] then [''0''] else A)
      @ replicate (nat (8 - int (length A - 1 + 2 + (length B - 1)))) ''0''
      @ (if B = [] then [''0''] else B)
    = A @ replicate (8 - length A - length B) ''0'' @ B"
proof -
  have r: "\<And>n. ''0'' # replicate n ''0'' @ [''0''] = replicate (Suc (Suc n)) ''0''"
    by (simp add: replicate_append_same)
  have r1: "\<And>n. replicate n ''0'' @ [''0''] = replicate (Suc n) ''0''"
    by (simp add: replicate_append_same)
  show ?thesis
  proof (cases "A = []")
    case An: True
    show ?thesis
    proof (cases "B = []")
      case True
      then show ?thesis using An by (simp add: r numeral_eq_Suc)
    next
      case False
      then have "0 < length B" by simp
      then have "nat (8 - int (0 - 1 + 2 + (length B - 1))) = 7 - length B"
        by arith
      moreover have "8 - length B = Suc (7 - length B)" using assms by arith
      then have "''0'' # replicate (7 - length B) ''0'' = replicate (8 - length B) ''0''"
        by (simp only: replicate_Suc)
      ultimately show ?thesis using An False by simp
    qed
  next
    case Ac: False
    then have la: "0 < length A" by simp
    show ?thesis
    proof (cases "B = []")
      case True
      have "nat (8 - int (length A - 1 + 2 + (0 - 1))) = 7 - length A"
        using la by arith
      moreover have "8 - length A = Suc (7 - length A)" using assms by arith
      then have "replicate (7 - length A) ''0'' @ [''0''] = replicate (8 - length A) ''0''"
        using r1 [of "7 - length A"] by (simp only:)
      ultimately show ?thesis using Ac True by simp
    next
      case False
      then have lb: "0 < length B" by simp
      have "nat (8 - int (length A - 1 + 2 + (length B - 1))) = 8 - length A - length B"
        using la lb by arith
      then show ?thesis using Ac False by simp
    qed
  qed
qed

lemma hexblocks_member: "list_all2 hexblock ps gs \<Longrightarrow> p \<in> set ps \<Longrightarrow> \<exists>g. hexblock p g"
  by (induction rule: list_all2_induct) auto

lemma hexblocks_pieces:
  assumes "list_all2 hexblock ps gs"
  shows "\<forall>p\<in>set ps. p \<noteq> [] \<and> CHR '':'' \<notin> set p"
proof
  fix p assume "p \<in> set ps"
  then obtain g where g: "hexblock p g" using hexblocks_member [OF assms] by blast
  then have "p \<noteq> []" by (simp add: hexblock_def)
  moreover have "CHR '':'' \<notin> set p" using hexblock_chars(2) [OF g] by blast
  ultimately show "p \<noteq> [] \<and> CHR '':'' \<notin> set p" by simp
qed

lemma hexblocks_chars:
  assumes "list_all2 hexblock ps gs" "p \<in> set ps" "c \<in> set p"
  shows "c \<noteq> CHR ''.'' \<and> \<not> is_space c"
proof -
  obtain g where g: "hexblock p g" using hexblocks_member [OF assms(1,2)] by blast
  show ?thesis using hexblock_chars(3,4) [OF g assms(3)] by simp
qed

lemma parseParts_hexblocks:
  assumes "list_all2 hexblock ps gs" "length ps = 8"
  shows "parseParts False ps = Inr (int (parseInt16 (concat (map (digs 16 4) gs))))"
proof -
  have "list_all2 hexblock (rev ps) (rev gs)" using assms(1) by simp
  then have "partLoop (rev ps) [] = Inr (concat (map (digs 16 4) gs))"
    using partLoop_hexblocks [of "rev ps" "rev gs" "[]"] by simp
  moreover have "length gs = 8" using assms list_all2_lengthD by fastforce
  then have "concat (map (digs 16 4) gs) \<noteq> []" by (cases gs) (auto simp: digs_4)
  ultimately show ?thesis
    using assms(2) by (simp add: parseParts_def BigInt_0x_def)
qed

lemma fromString_no_dot:
  assumes "\<forall>c\<in>set s. c \<noteq> CHR ''.'' \<and> \<not> is_space c" "CHR '':'' \<in> set s"
  shows "fromString s =
     (case expandColons False s of
        Inl e \<Rightarrow> Inl e
      | Inr val3 \<Rightarrow> parseParts False (split CHR '':'' (patchEnds val3)))"
proof -
  have "replace_SPACE s = s" using assms(1) by (simp add: replace_SPACE_id)
  moreover have "\<not> 0 < lastIndexOf CHR ''.'' s"
    using assms(1) by (intro lastIndexOf_none) auto
  moreover have "\<not> indexOf CHR '':'' s < 0" using assms(2) by (rule indexOf_nonneg)
  ultimately show ?thesis by (auto simp add: fromString_def Let_def split: sum.splits)
qed

lemma fromString_plain:
  assumes "list_all2 hexblock ps gs" "length ps = 8"
  shows "fromString (join '':'' ps) = Inr (int (parseInt16 (concat (map (digs 16 4) gs))))"
proof -
  have pc: "\<forall>p\<in>set ps. p \<noteq> [] \<and> CHR '':'' \<notin> set p" using assms(1) by (rule hexblocks_pieces)
  have ne: "ps \<noteq> []" using assms(2) by auto
  obtain x y zs where ps: "ps = x # y # zs"
    using assms(2) by (cases ps; cases "tl ps") auto
  have chars: "\<forall>c\<in>set (join '':'' ps). c \<noteq> CHR ''.'' \<and> \<not> is_space c"
  proof
    fix c assume "c \<in> set (join '':'' ps)"
    then have "c = CHR '':'' \<or> (\<exists>p\<in>set ps. c \<in> set p)"
      using set_join [of "'':''" ps] by auto
    then show "c \<noteq> CHR ''.'' \<and> \<not> is_space c"
      using hexblocks_chars [OF assms(1)] by (auto simp: is_space_def code_def)
  qed
  have colon: "CHR '':'' \<in> set (join '':'' ps)" by (simp add: ps)
  have mc: "matchCount_COLONS (join '':'' ps) = 0"
    using matchCount_COLONS_join [OF pc, of "[]"] by simp
  have ex: "expandColons False (join '':'' ps) = Inr (join '':'' ps)"
    by (simp add: expandColons_def mc)
  have "hd ps \<noteq> []" "last ps \<noteq> []" using pc ne by simp_all
  then have h: "hd (join '':'' ps) = hd (hd ps)" and l: "last (join '':'' ps) = last (last ps)"
    using hd_join [OF ne, of "'':''" "[]"] last_join [OF ne] by simp_all
  have "hd (hd ps) \<noteq> CHR '':''" using pc ne \<open>hd ps \<noteq> []\<close> by (metis hd_in_set)
  moreover have "last (last ps) \<noteq> CHR '':''" using pc ne \<open>last ps \<noteq> []\<close> by (metis last_in_set)
  ultimately have pe: "patchEnds (join '':'' ps) = join '':'' ps"
    using h l by (simp add: patchEnds_def Let_def indexOf_zero)
  have sp: "split CHR '':'' (join '':'' ps) = ps"
    using split_join [OF ne, of "CHR '':''"] pc by simp
  show ?thesis
    by (simp add: fromString_no_dot [OF chars colon] ex pe sp parseParts_hexblocks [OF assms])
qed

lemma fromString_elided:
  assumes A: "list_all2 hexblock A ga" and B: "list_all2 hexblock B gb"
    and len: "length A + length B \<le> 6"
  shows "fromString (join '':'' A @ ''::'' @ join '':'' B)
     = Inr (int (parseInt16 (concat (map (digs 16 4)
               (ga @ replicate (8 - length A - length B) 0 @ gb)))))"
proof -
  let ?s = "join '':'' A @ ''::'' @ join '':'' B"
  let ?k = "8 - length A - length B"
  have pa: "\<forall>p\<in>set A. p \<noteq> [] \<and> CHR '':'' \<notin> set p" using A by (rule hexblocks_pieces)
  have pb: "\<forall>p\<in>set B. p \<noteq> [] \<and> CHR '':'' \<notin> set p" using B by (rule hexblocks_pieces)
  have chars: "\<forall>c\<in>set ?s. c \<noteq> CHR ''.'' \<and> \<not> is_space c"
  proof
    fix c assume "c \<in> set ?s"
    then have "c = CHR '':'' \<or> (\<exists>p\<in>set A. c \<in> set p) \<or> (\<exists>p\<in>set B. c \<in> set p)"
      using set_join [of "'':''" A] set_join [of "'':''" B] by auto
    then show "c \<noteq> CHR ''.'' \<and> \<not> is_space c"
      using hexblocks_chars [OF A] hexblocks_chars [OF B] by (auto simp: is_space_def code_def)
  qed
  have colon: "CHR '':'' \<in> set ?s" by simp
  have mc: "matchCount_COLONS ?s = 1"
    using matchCount_COLONS_join [OF pa, of "''::'' @ join '':'' B"]
      matchCount_COLONS_join [OF pb, of "[]"] by simp
  have rp: "\<And>r. replace_COLONS r ?s = join '':'' A @ r @ join '':'' B"
  proof -
    fix r
    have "replace_COLONS r (join '':'' B) = join '':'' B"
      using replace_COLONS_join [OF pb, of r "[]"] by simp
    then show "replace_COLONS r ?s = join '':'' A @ r @ join '':'' B"
      using replace_COLONS_join [OF pa, of r "''::'' @ join '':'' B"] by simp
  qed
  have cnt: "matchCount_COLON ?s = length A - 1 + 2 + (length B - 1)"
    using count_join [of A] count_join [of B] pa pb
    by (simp add: matchCount_COLON_append) (simp add: matchCount_COLON_def)
  let ?m = "nat (8 - int (length A - 1 + 2 + (length B - 1)))"
  have ex: "expandColons False ?s
      = Inr (join '':'' A @ '':'' @ concat (replicate ?m ''0:'') @ join '':'' B)"
    unfolding expandColons_def Let_def mc cnt rp replacement_def by simp
  let ?Q = "A @ replicate ?k ''0'' @ B"
  have pe: "patchEnds (join '':'' A @ '':'' @ concat (replicate ?m ''0:'') @ join '':'' B)
      = join '':'' ?Q"
    by (simp only: patchEnds_expanded [OF pa pb] zero_pad_parts [OF len])
  have qlen: "length ?Q = 8" using len by simp
  have qp: "\<forall>p\<in>set ?Q. CHR '':'' \<notin> set p" using pa pb by auto
  have qne: "?Q \<noteq> []" using qlen by (metis length_0_conv zero_neq_numeral)
  have sp: "split CHR '':'' (join '':'' ?Q) = ?Q"
    using split_join [OF qne, of "CHR '':''"] qp by blast
  have z: "list_all2 hexblock (replicate ?k ''0'') (replicate ?k 0)"
    by (simp add: list_all2_conv_all_nth hexblock_zero)
  have hb: "list_all2 hexblock ?Q (ga @ replicate ?k 0 @ gb)"
    using A B z by (intro list_all2_appendI)
  show ?thesis
    by (simp only: fromString_no_dot [OF chars colon] ex sum.case pe sp
        parseParts_hexblocks [OF hb qlen])
qed

lemma value_of_groups:
  "n < 2 ^ 128 \<Longrightarrow> parseInt16 (concat (map (digs 16 4) (groups16 8 n))) = n"
proof -
  assume n: "n < 2 ^ 128"
  have "concat (map (digs 16 4) (groups16 8 n)) = digs 16 32 n"
    using digs_groups16 [of 8 n] by simp
  then have "parseInt16 (concat (map (digs 16 4) (groups16 8 n))) = n mod 16 ^ 32"
    by (simp add: parseInt16_digs)
  also have "\<dots> = n" using n by simp
  finally show ?thesis .
qed

lemma fromString_collapse:
  assumes "n < 2 ^ 128"
  shows "fromString (collapse (int n)) = Inr (int n)"
proof -
  have b: "\<And>g. g \<in> set (groups16 8 n) \<Longrightarrow> g < 65536" by (rule groups16_bound)
  consider (plain) "collapse (int n) = join '':'' (map (digs 16 4) (groups16 8 n))"
    | (elided) ga gb k where "groups16 8 n = ga @ replicate k 0 @ gb" "2 \<le> k"
        "collapse (int n) = join '':'' (map (\<lambda>g. toString16 (int g)) ga) @ ''::''
              @ join '':'' (map (\<lambda>g. toString16 (int g)) gb)"
    using collapse_shape [OF assms] by blast
  then show ?thesis
  proof cases
    case plain
    have "list_all2 hexblock (map (digs 16 4) (groups16 8 n)) (groups16 8 n)"
      using b by (simp add: list_all2_conv_all_nth hexblock_digs)
    then show ?thesis
      using fromString_plain [of "map (digs 16 4) (groups16 8 n)" "groups16 8 n"]
      by (simp add: plain value_of_groups [OF assms])
  next
    case elided
    let ?A = "map (\<lambda>g. toString16 (int g)) ga"
    let ?B = "map (\<lambda>g. toString16 (int g)) gb"
    have l8: "length ga + k + length gb = 8"
      using length_groups16 [of 8 n] by (simp add: elided(1) del: length_groups16)
    have ba: "\<And>g. g \<in> set ga \<Longrightarrow> g \<le> 0xFFFF" and bb: "\<And>g. g \<in> set gb \<Longrightarrow> g \<le> 0xFFFF"
      using b by (auto simp: elided(1) less_Suc_eq_le [symmetric] simp del: less_Suc_eq_le)
    have A: "list_all2 hexblock ?A ga" using ba
      by (simp add: list_all2_conv_all_nth hexblock_toString16)
    have B: "list_all2 hexblock ?B gb" using bb
      by (simp add: list_all2_conv_all_nth hexblock_toString16)
    have len: "length ?A + length ?B \<le> 6" using l8 elided(2) by simp
    have k: "8 - length ?A - length ?B = k" using l8 by simp
    show ?thesis
      using fromString_elided [OF A B len]
      by (simp only: elided(3) k elided(1) [symmetric] value_of_groups [OF assms])
  qed
qed

section \<open>The dot-decimal form, parsed again\<close>

lemma parseInt16_append:
  "parseInt16 (xs @ ys) = parseInt16 xs * 16 ^ length ys + parseInt16 ys"
proof (induction ys rule: rev_induct)
  case Nil
  show ?case by (simp add: parseInt16_def)
next
  case (snoc y ys)
  have "parseInt16 (xs @ ys @ [y]) = 16 * parseInt16 (xs @ ys) + hexval y"
    using parseInt16_snoc [of "xs @ ys" y] by simp
  then show ?case by (simp add: snoc.IH parseInt16_snoc algebra_simps)
qed

lemma toString10_digits:
  "toString10 (int b) \<noteq> [] \<and> list_all is_digit (toString10 (int b))
     \<and> parseInt10 (toString10 (int b)) = b"
proof -
  have "\<And>c. c \<in> set (toStringRadix 10 b) \<Longrightarrow> is_digit c"
    using toStringRadix10_dec decdigit_props(2) by blast
  then show ?thesis
    by (simp add: toString10_def parseInt10_toStringRadix list_all_iff)
qed

lemma is_digit_chars:
  "is_digit c \<Longrightarrow> c \<noteq> CHR '':'' \<and> c \<noteq> CHR ''.'' \<and> \<not> is_space c"
  by (auto simp: is_digit_def is_space_def code_def)

lemma parseDecimal_toString10: "b \<le> 255 \<Longrightarrow> parseDecimal (toString10 (int b)) = Inr b"
  using toString10_digits [of b] by (simp add: parseDecimal_def DECREGEX_test_def isFinite_def)

lemma pad2: "b \<le> 255 \<Longrightarrow> padStart 2 CHR ''0'' (toString16 (int b)) = digs 16 2 b"
  using padStart_toStringRadix [of 16 b 2] by (simp add: toString16_def)

lemma quadLoop_bytes:
  "\<forall>b\<in>set bs. b \<le> 255 \<Longrightarrow>
     quadLoop (map (\<lambda>b. toString10 (int b)) bs) h = Inr (h @ concat (map (digs 16 2) bs))"
  by (induction bs arbitrary: h) (simp_all add: parseDecimal_toString10 pad2)

lemma ipv4_text_chars:
  "c \<in> set (ipv4_text w) \<Longrightarrow> c \<noteq> CHR '':'' \<and> \<not> is_space c"
proof -
  assume "c \<in> set (ipv4_text w)"
  then have "c = CHR ''.'' \<or> (\<exists>b. c \<in> set (toString10 (int b)))"
    using set_join [of "''.''"] by (fastforce simp: ipv4_text_def)
  then show ?thesis
    using toString10_digits is_digit_chars
    by (auto simp: list_all_iff is_space_def code_def)
qed

lemma fromString_ipv4_text:
  assumes "w < 2 ^ 32"
  shows "fromString (''::ffff:'' @ ipv4_text w) = Inr (0xFFFF * 2 ^ 32 + int w)"
proof -
  define bs where "bs = [w div 2 ^ 24 mod 256, w div 2 ^ 16 mod 256, w div 2 ^ 8 mod 256, w mod 256]"
  define ds where "ds = map (\<lambda>b. toString10 (int b)) bs"
  define T where "T = ipv4_text w"
  have T: "T = join ''.'' ds" by (simp add: T_def ipv4_text_def ds_def bs_def)
  have m256: "\<And>x::nat. x mod 256 \<le> 255"
  proof -
    fix x :: nat
    have "x mod 256 < 256" by simp
    then show "x mod 256 \<le> 255" by arith
  qed
  have bb: "\<forall>b\<in>set bs. b \<le> 255" by (simp add: bs_def m256)
  have dsne: "ds \<noteq> []" by (simp add: ds_def bs_def)
  have dd: "\<forall>d\<in>set ds. CHR ''.'' \<notin> set d"
    using toString10_digits is_digit_chars by (auto simp: ds_def list_all_iff)
  have Tc: "\<And>c. c \<in> set T \<Longrightarrow> c \<noteq> CHR '':'' \<and> \<not> is_space c"
    unfolding T_def by (rule ipv4_text_chars)
  have dot: "CHR ''.'' \<in> set T" by (simp add: T ds_def bs_def)
  then have Tne: "T \<noteq> []" by auto
  have nocolon: "CHR '':'' \<notin> set T" using Tc by blast
  have hdT: "hd T \<noteq> CHR '':''" using Tne nocolon by (metis hd_in_set)
  have lastT: "last T \<noteq> CHR '':''" using Tne nocolon by (metis last_in_set)
  define S where "S = ''::ffff:'' @ T"
  define E1 where "E1 = '':0:0:0:0:ffff:'' @ T"
  define E2 where "E2 = ''0:0:0:0:0:ffff:'' @ T"
  have sp: "replace_SPACE S = S"
    unfolding S_def using Tc by (intro replace_SPACE_id) (auto simp: is_space_def code_def)
  have has: "0 < lastIndexOf CHR ''.'' S"
    unfolding S_def using dot by (intro lastIndexOf_pos) simp
  have col: "\<not> indexOf CHR '':'' S < 0" unfolding S_def by (intro indexOf_nonneg) simp
  have mT: "matchCount_COLONS T = 0"
    using matchCount_COLONS_piece [OF nocolon, of "[]"] by simp
  have rT: "\<And>r. replace_COLONS r T = T"
    using replace_COLONS_piece [OF nocolon, of _ "[]"] by simp
  have m1: "matchCount_COLONS (CHR '':'' # T) = 0"
    using matchCount_COLONS_colon [of T] hdT mT by simp
  have r1: "\<And>r. replace_COLONS r (CHR '':'' # T) = CHR '':'' # T"
    using replace_COLONS_colon [of T] hdT rT by simp
  have m2: "matchCount_COLONS (''ffff'' @ CHR '':'' # T) = 0"
    using matchCount_COLONS_piece [of "''ffff''" "CHR '':'' # T"] m1 by simp
  have r2: "\<And>r. replace_COLONS r (''ffff'' @ CHR '':'' # T) = ''ffff'' @ CHR '':'' # T"
    using replace_COLONS_piece [of "''ffff''" _ "CHR '':'' # T"] r1 by simp
  have mc: "matchCount_COLONS S = 1" using m2 by (simp add: S_def)
  have rp: "\<And>r. replace_COLONS r S = r @ ''ffff:'' @ T" using r2 by (simp add: S_def)
  have "filter (\<lambda>c. c = CHR '':'') T = []" using nocolon by (auto simp: filter_empty_conv)
  then have cnt: "matchCount_COLON S = 3" by (simp add: matchCount_COLON_def S_def)
  have ex: "expandColons True S = Inr E1"
    unfolding expandColons_def Let_def mc cnt rp replacement_def E1_def
    by (simp add: numeral_eq_Suc)
  have pe: "patchEnds E1 = E2"
    using lastT Tne by (simp add: patchEnds_def Let_def indexOf_def E1_def E2_def)
  have spl: "split CHR '':'' E2 = [''0'', ''0'', ''0'', ''0'', ''0'', ''ffff'', T]"
    using nocolon by (simp add: split_def splitAcc_nosep E2_def)
  have sq: "split CHR ''.'' T = ds"
    unfolding T using split_join [OF dsne, of "CHR ''.''"] dd by simp
  have ql: "quadLoop ds [] = Inr (digs 16 8 w)"
  proof -
    have "quadLoop ds [] = Inr (concat (map (digs 16 2) bs))"
      unfolding ds_def using quadLoop_bytes [OF bb, of "[]"] by simp
    moreover have "\<And>n. digs 16 2 (n mod 256) = digs 16 2 n"
      using digs_mod [of 16 2] by simp
    ultimately show ?thesis by (simp add: bs_def digs_8_pairs)
  qed
  have pq: "popQuads [''0'', ''0'', ''0'', ''0'', ''0'', ''ffff'', T]
      = Inr (digs 16 8 w, [''0'', ''0'', ''0'', ''0'', ''0'', ''ffff''])"
    by (simp add: popQuads_def sq Let_def ql) (simp add: ds_def bs_def)
  have f: "hexblock ''ffff'' 0xFFFF"
    using hexblock_toString16 [of "0xFFFF"] by (simp add: toString16_def toStringRadix_ffff)
  have hb: "list_all2 hexblock [''ffff'', ''0'', ''0'', ''0'', ''0'', ''0''] [0xFFFF, 0, 0, 0, 0, 0]"
    using f hexblock_zero by simp
  define P where "P = ''00000000000000000000ffff''"
  have pl: "partLoop [''ffff'', ''0'', ''0'', ''0'', ''0'', ''0''] (digs 16 8 w)
      = Inr (P @ digs 16 8 w)"
    using partLoop_hexblocks [OF hb, of "digs 16 8 w"]
    by (simp add: digs_4 hexdigit_def char_of_eq_iff P_def)
  have pv: "parseInt16 P = 0xFFFF" and Pne: "P \<noteq> []"
    by (simp_all add: eval_numbers eval_chars P_def)
  have val: "parseInt16 (P @ digs 16 8 w) = 0xFFFF * 2 ^ 32 + w"
    using assms by (simp only: parseInt16_append pv parseInt16_digs length_digs) simp
  have pp: "parseParts True [''0'', ''0'', ''0'', ''0'', ''0'', ''ffff'', T] = Inr (0xFFFF * 2 ^ 32 + int w)"
    using Pne by (simp add: parseParts_def pq pl BigInt_0x_def val del: partLoop.simps)
  have "fromString S = Inr (0xFFFF * 2 ^ 32 + int w)"
    using col by (simp add: fromString_def Let_def sp has ex pe spl pp)
  then show ?thesis by (simp only: S_def T_def)
qed

section \<open>The round trip through the canonical form\<close>

lemma quadLoop_hex:
  "quadLoop qs h = Inr h' \<Longrightarrow>
     length h' = length h + 2 * length qs \<and> (list_all is_hex h \<longrightarrow> list_all is_hex h')"
proof (induction qs arbitrary: h)
  case Nil
  then show ?case by simp
next
  case (Cons q qs)
  then obtain b where b: "parseDecimal q = Inr b" "b \<le> 255"
      "quadLoop qs (h @ padStart 2 CHR ''0'' (toString16 (int b))) = Inr h'"
    by (auto split: sum.splits if_splits)
  have "list_all is_hex (digs 16 2 b)"
    using digs16_hex [of _ 2 b] hexdigit_props(2) by (auto simp: list_all_iff)
  then show ?case
    using Cons.IH [OF b(3)] by (simp add: pad2 [OF b(2)])
qed

lemma partLoop_hex:
  "partLoop ps h = Inr h' \<Longrightarrow>
     length h' \<le> length h + 4 * length ps \<and> (list_all is_hex h \<longrightarrow> list_all is_hex h')"
proof (induction ps arbitrary: h)
  case Nil
  then show ?case by simp
next
  case (Cons p ps)
  show ?case
  proof (cases "p = []")
    case True
    then show ?thesis using Cons.prems by simp
  next
    case False
    then obtain g where g: "parseHex p = Inr g" "g \<le> 0xFFFF"
        "partLoop ps (padStart 4 CHR ''0'' (toString16 (int g)) @ h) = Inr h'"
      using Cons.prems by (auto split: sum.splits if_splits)
    have "list_all is_hex (digs 16 4 g)"
      using digs16_hex [of _ 4 g] hexdigit_props(2) by (auto simp: list_all_iff)
    then show ?thesis
      using Cons.IH [OF g(3)] by (simp add: length_pad4 [OF g(2)])
  qed
qed

lemma parseParts_range:
  assumes "parseParts b ps = Inr v"
  shows "0 \<le> v \<and> v < 2 ^ 128"
proof -
  obtain hexStr parts where hp: "(if b then popQuads ps else Inr ([], ps)) = Inr (hexStr, parts)"
    using assms by (auto simp: parseParts_def split: sum.splits)
  have h: "(length hexStr = 0 \<or> length hexStr = 8) \<and> list_all is_hex hexStr"
  proof (cases b)
    case False
    then show ?thesis using hp by simp
  next
    case True
    then obtain q where "quadLoop q [] = Inr hexStr" "length q = 4"
      using hp by (auto simp: popQuads_def Let_def split: list.splits if_splits sum.splits)
    then show ?thesis using quadLoop_hex [of q "[]" hexStr] by simp
  qed
  have cnt: "8 = length hexStr div 4 + length parts"
    using assms hp by (auto simp: parseParts_def split: if_splits)
  obtain h' where h': "partLoop (rev parts) hexStr = Inr h'" "BigInt_0x h' = Inr v"
    using assms hp cnt by (auto simp: parseParts_def split: sum.splits)
  have "length h' \<le> length hexStr + 4 * length parts" and hx: "list_all is_hex h'"
    using partLoop_hex [OF h'(1)] h by simp_all
  then have l32: "length h' \<le> 32" using h cnt by auto
  have "parseInt16 h' < 16 ^ length h'" using hx by (rule parseInt16_bound)
  also have "(16::nat) ^ length h' \<le> 16 ^ 32" using l32 by (intro power_increasing) simp_all
  finally have "int (parseInt16 h') < 2 ^ 128" by simp
  moreover have "v = int (parseInt16 h')"
    using h'(2) by (auto simp: BigInt_0x_def split: if_splits)
  ultimately show ?thesis by simp
qed

lemma fromString_range: "fromString s = Inr v \<Longrightarrow> 0 \<le> v \<and> v < 2 ^ 128"
  using parseParts_range
  by (auto simp: fromString_def Let_def split: if_splits sum.splits)

lemma fromString_toIPv6String:
  assumes "0 \<le> v" "v < 2 ^ 128"
  shows "fromString (toIPv6String v True) = Inr v"
proof (cases "isIPv4 v")
  case True
  then have d: "v div 2 ^ 32 = 0xFFFF" using isIPv4_iff [OF assms] by simp
  define w where "w = nat (v mod 2 ^ 32)"
  have w: "w < 2 ^ 32" by (simp add: w_def nat_less_iff)
  have "v = 0xFFFF * 2 ^ 32 + v mod 2 ^ 32"
    using d div_mult_mod_eq [of v "2 ^ 32"] by simp
  then have v: "v = 0xFFFF * 2 ^ 32 + int w" by (simp add: w_def)
  have "toIPv6String v True = ''::ffff:'' @ ipv4_text w"
    using True dotDecimal_ipv4 [OF assms(1) d] by (simp add: toIPv6String_def w_def)
  then show ?thesis using fromString_ipv4_text [OF w] v by simp
next
  case False
  have "nat v < 2 ^ 128" using assms by (simp add: nat_less_iff)
  then have "fromString (collapse (int (nat v))) = Inr (int (nat v))"
    by (rule fromString_collapse)
  then show ?thesis using False assms(1) by (simp add: toIPv6String_def)
qed

text \<open>
  Claim C2. For every string \<open>s\<close> that the parser of addresses accepts, parsing the
  canonical IPv6 rendering again gives the same value:
  \<open>Address(Address(s).toIPv6String())\<close> equals \<open>Address(s)\<close>, as 128-bit integers.
\<close>

theorem C2_round_trip:
  "new_IPv6 (Some (Str s)) = Inr v \<longrightarrow>
     fromString s = Inr v
     \<and> toIPv6String_static (Inst v) True = Inr (toIPv6String v True)
     \<and> new_IPv6 (Some (Str (toIPv6String v True))) = Inr v
     \<and> compare (Some (Str (toIPv6String v True))) (Some (Str s)) = Inr 0
     \<and> equals (Some (Str (toIPv6String v True))) (Some (Str s)) = Inr True"
proof
  assume a: "new_IPv6 (Some (Str s)) = Inr v"
  then have f: "fromString s = Inr v"
    by (auto simp: new_IPv6_def toBigInt_def split: sum.splits if_splits)
  have r: "0 \<le> v" "v < 2 ^ 128" using fromString_range [OF f] by simp_all
  have b: "fromString (toIPv6String v True) = Inr v" using r by (rule fromString_toIPv6String)
  have c: "new_IPv6 (Some (Str (toIPv6String v True))) = Inr v"
    using b r by (simp add: new_IPv6_def toBigInt_def MAX_128_def)
  have d: "compare (Some (Str (toIPv6String v True))) (Some (Str s)) = Inr 0"
    by (simp add: compare_def toBigInt_def b f)
  have e: "equals (Some (Str (toIPv6String v True))) (Some (Str s)) = Inr True"
    by (simp add: equals_def d)
  have g: "toIPv6String_static (Inst v) True = Inr (toIPv6String v True)"
    by (simp add: toIPv6String_static_def IPv6_from_def)
  show "fromString s = Inr v
     \<and> toIPv6String_static (Inst v) True = Inr (toIPv6String v True)
     \<and> new_IPv6 (Some (Str (toIPv6String v True))) = Inr v
     \<and> compare (Some (Str (toIPv6String v True))) (Some (Str s)) = Inr 0
     \<and> equals (Some (Str (toIPv6String v True))) (Some (Str s)) = Inr True"
    using f g c d e by blast
qed

theorem C2_round_trip_witness:
  "new_IPv6 (Some (Str ''fe80:0:0:0:202:B3FF:FE1E:8329'')) = Inr 0xfe800000000000000202b3fffe1e8329
   \<and> toIPv6String 0xfe800000000000000202b3fffe1e8329 True = ''fe80::202:b3ff:fe1e:8329''
   \<and> new_IPv6 (Some (Str ''fe80::202:b3ff:fe1e:8329'')) = Inr 0xfe800000000000000202b3fffe1e8329
   \<and> equals (Some (Str ''fe80::202:b3ff:fe1e:8329''))
        (Some (Str ''fe80:0:0:0:202:B3FF:FE1E:8329'')) = Inr True"
proof -
  have p: "new_IPv6 (Some (Str ''fe80:0:0:0:202:B3FF:FE1E:8329''))
      = Inr 0xfe800000000000000202b3fffe1e8329"
    by (simp add: new_IPv6_def toBigInt_def MAX_128_def eval_fromString eval_numbers eval_chars)
  have t: "toIPv6String 0xfe800000000000000202b3fffe1e8329 True = ''fe80::202:b3ff:fe1e:8329''"
    by (simp add: eval_toString eval_numbers eval_chars)
  show ?thesis
    using C2_round_trip [of "''fe80:0:0:0:202:B3FF:FE1E:8329''" "0xfe800000000000000202b3fffe1e8329"] p
    by (simp only: t)
qed

section \<open>The elision in the whole of \<open>fromString\<close>\<close>













section \<open>What a match reads and what it captures\<close>

declare ms.simps [simp del]

lemma in_ms_Cls:
  "y \<in> set (ms (Cls p) (s, c)) \<Longrightarrow> \<exists>h. s = h # fst y \<and> p h \<and> snd y = c"
  by (cases s) (auto simp: ms.simps(1) split: if_splits)

lemma in_ms_Eps: "y \<in> set (ms Eps (s, c)) \<Longrightarrow> y = (s, c)"
  by (simp add: ms.simps(2))

lemma in_ms_Eol: "y \<in> set (ms Eol (s, c)) \<Longrightarrow> y = (s, c)"
  by (simp add: ms.simps(3) split: if_splits)

lemma in_ms_Seq:
  "y \<in> set (ms (Seq a b) (s, c)) \<Longrightarrow> \<exists>z. z \<in> set (ms a (s, c)) \<and> y \<in> set (ms b z)"
  by (auto simp: ms.simps(4))

lemma in_ms_Alt:
  "y \<in> set (ms (Alt a b) (s, c)) \<Longrightarrow> y \<in> set (ms a (s, c)) \<or> y \<in> set (ms b (s, c))"
  by (auto simp: ms.simps(5))

lemma in_ms_Star:
  assumes "y \<in> set (ms (Star r) (s, c))"
  shows "y = (s, c) \<or> (\<exists>s1 c1. (s1, c1) \<in> set (ms r (s, c)) \<and> length s1 < length s
            \<and> y \<in> set (ms (Star r) (s1, c1)))"
proof -
  have "y \<in> set (concat (map (\<lambda>(s', c'). if length s' < length s then ms (Star r) (s', c') else [])
               (ms r (s, c))) @ [(s, c)])"
    using assms by (subst (asm) ms.simps(6))
  then show ?thesis by (auto split: if_splits)
qed

lemma in_ms_Rep_none: "y \<in> set (ms (Rep m 0 r) (s, c)) \<Longrightarrow> y = (s, c)"
  by (simp add: ms.simps(7) split: if_splits)

lemma in_ms_Rep_zero:
  assumes "y \<in> set (ms (Rep 0 (Suc n) r) (s, c))"
  shows "y = (s, c) \<or> (\<exists>s1 c1. (s1, c1) \<in> set (ms r (s, c)) \<and> length s1 < length s
            \<and> y \<in> set (ms (Rep 0 n r) (s1, c1)))"
proof -
  have "y \<in> set (concat (map (\<lambda>(s', c'). if length s' < length s then ms (Rep 0 n r) (s', c') else [])
               (ms r (s, c))) @ [(s, c)])"
    using assms by (subst (asm) ms.simps(8))
  then show ?thesis by (auto split: if_splits)
qed

lemma in_ms_Rep_more:
  "y \<in> set (ms (Rep (Suc m) (Suc n) r) (s, c)) \<Longrightarrow>
     \<exists>z. z \<in> set (ms r (s, c)) \<and> y \<in> set (ms (Rep m n r) z)"
  by (auto simp: ms.simps(9))

lemma in_ms_Grp:
  "y \<in> set (ms (Grp k r) (s, c)) \<Longrightarrow>
     \<exists>s1 c1. (s1, c1) \<in> set (ms r (s, c)) \<and> y = (s1, c1(k \<mapsto> take (length s - length s1) s))"
  by (auto simp: ms.simps(10))

lemma reads_trans:
  assumes "\<exists>w. s = w @ s1 \<and> (P \<longrightarrow> a \<notin> set w)" "\<exists>w. s1 = w @ s2 \<and> (Q \<longrightarrow> a \<notin> set w)"
  shows "\<exists>w. s = w @ s2 \<and> (P \<and> Q \<longrightarrow> a \<notin> set w)"
proof -
  from assms(1) obtain w1 where w1: "s = w1 @ s1" "P \<longrightarrow> a \<notin> set w1" by (elim exE conjE)
  from assms(2) obtain w2 where w2: "s1 = w2 @ s2" "Q \<longrightarrow> a \<notin> set w2" by (elim exE conjE)
  have "s = (w1 @ w2) @ s2 \<and> (P \<and> Q \<longrightarrow> a \<notin> set (w1 @ w2))"
    using w1 w2 by simp
  then show ?thesis by (rule exI)
qed

lemma reads_weaken:
  assumes "\<exists>w. s = w @ s1 \<and> (P \<longrightarrow> a \<notin> set w)" "Q \<Longrightarrow> P"
  shows "\<exists>w. s = w @ s1 \<and> (Q \<longrightarrow> a \<notin> set w)"
proof -
  from assms(1) obtain w1 where w1: "s = w1 @ s1" "P \<longrightarrow> a \<notin> set w1" by (elim exE conjE)
  have "s = w1 @ s1 \<and> (Q \<longrightarrow> a \<notin> set w1)" using w1 assms(2) by simp
  then show ?thesis by (rule exI)
qed

lemma reads_refl: "\<exists>w. s = w @ s \<and> (P \<longrightarrow> a \<notin> set w)"
  by (rule exI [of _ "[]"]) simp

lemma ms_reads:
  "y \<in> set (ms r x) \<Longrightarrow> \<exists>w. fst x = w @ fst y \<and> (avoids a r \<longrightarrow> a \<notin> set w)"
proof (induction r x arbitrary: y rule: ms.induct)
  case (1 p s c)
  from in_ms_Cls [OF 1] obtain h where h: "s = h # fst y" "p h" by blast
  then have "fst (s, c) = [h] @ fst y \<and> (avoids a (Cls p) \<longrightarrow> a \<notin> set [h])" by auto
  then show ?case by (rule exI)
next
  case (2 s c)
  show ?case using in_ms_Eps [OF 2] reads_refl [of s] by simp
next
  case (3 s c)
  show ?case using in_ms_Eol [OF 3] reads_refl [of s] by simp
next
  case (4 a' b s c)
  from in_ms_Seq [OF 4(3)] obtain z where z: "z \<in> set (ms a' (s, c))" "y \<in> set (ms b z)"
    by blast
  show ?case
    using reads_trans [OF 4(1) [OF z(1)] 4(2) [OF z(1) z(2)]] by simp
next
  case (5 a' b s c)
  from in_ms_Alt [OF 5(3)] show ?case
  proof
    assume h: "y \<in> set (ms a' (s, c))"
    show ?thesis by (rule reads_weaken [OF 5(1) [OF h]]) simp
  next
    assume h: "y \<in> set (ms b (s, c))"
    show ?thesis by (rule reads_weaken [OF 5(2) [OF h]]) simp
  qed
next
  case (6 r s c)
  from in_ms_Star [OF 6(3)] show ?case
  proof
    assume "y = (s, c)"
    then show ?thesis using reads_refl [of s] by simp
  next
    assume "\<exists>s1 c1. (s1, c1) \<in> set (ms r (s, c)) \<and> length s1 < length s
            \<and> y \<in> set (ms (Star r) (s1, c1))"
    then obtain s1 c1 where z: "(s1, c1) \<in> set (ms r (s, c))" "length s1 < length s"
        "y \<in> set (ms (Star r) (s1, c1))" by blast
    show ?thesis
      using reads_trans [OF 6(1) [OF z(1)] 6(2) [OF z(1) refl z(2) z(3)]] by simp
  qed
next
  case (7 m r s c)
  show ?case using in_ms_Rep_none [OF 7] reads_refl [of s] by simp
next
  case (8 n r s c)
  from in_ms_Rep_zero [OF 8(3)] show ?case
  proof
    assume "y = (s, c)"
    then show ?thesis using reads_refl [of s] by simp
  next
    assume "\<exists>s1 c1. (s1, c1) \<in> set (ms r (s, c)) \<and> length s1 < length s
            \<and> y \<in> set (ms (Rep 0 n r) (s1, c1))"
    then obtain s1 c1 where z: "(s1, c1) \<in> set (ms r (s, c))" "length s1 < length s"
        "y \<in> set (ms (Rep 0 n r) (s1, c1))" by blast
    show ?thesis
      using reads_trans [OF 8(1) [OF z(1)] 8(2) [OF z(1) refl z(2) z(3)]] by simp
  qed
next
  case (9 m n r s c)
  from in_ms_Rep_more [OF 9(3)] obtain z where z: "z \<in> set (ms r (s, c))"
      "y \<in> set (ms (Rep m n r) z)" by blast
  show ?case
    using reads_trans [OF 9(1) [OF z(1)] 9(2) [OF z(1) z(2)]] by simp
next
  case (10 k r s c)
  from in_ms_Grp [OF 10(2)] obtain s1 c1 where z: "(s1, c1) \<in> set (ms r (s, c))"
      "y = (s1, c1(k \<mapsto> take (length s - length s1) s))" by blast
  show ?case using 10(1) [OF z(1)] z(2) by simp
qed

lemma ms_keeps:
  "y \<in> set (ms r x) \<Longrightarrow> no_grp k r \<Longrightarrow> snd y k = snd x k"
proof (induction r x arbitrary: y rule: ms.induct)
  case (1 p s c)
  from in_ms_Cls [OF 1(1)] show ?case by auto
next
  case (2 s c)
  from in_ms_Eps [OF 2(1)] show ?case by simp
next
  case (3 s c)
  from in_ms_Eol [OF 3(1)] show ?case by simp
next
  case (4 a' b s c)
  from in_ms_Seq [OF 4(3)] obtain z where z: "z \<in> set (ms a' (s, c))" "y \<in> set (ms b z)"
    by blast
  have n: "no_grp k a'" "no_grp k b" using 4(4) by simp_all
  have "snd z k = snd (s, c) k" using 4(1) [OF z(1) n(1)] .
  moreover have "snd y k = snd z k" using 4(2) [OF z(1) z(2) n(2)] .
  ultimately show ?case by simp
next
  case (5 a' b s c)
  have n: "no_grp k a'" "no_grp k b" using 5(4) by simp_all
  from 5(3) have "y \<in> set (ms a' (s, c)) \<or> y \<in> set (ms b (s, c))" by (rule in_ms_Alt)
  then show ?case
  proof
    assume h: "y \<in> set (ms a' (s, c))"
    show ?thesis using 5(1) [OF h n(1)] .
  next
    assume h: "y \<in> set (ms b (s, c))"
    show ?thesis using 5(2) [OF h n(2)] .
  qed
next
  case (6 r s c)
  have n: "no_grp k r" using 6(4) by simp
  show ?case
  proof (cases "y = (s, c)")
    case True
    then show ?thesis by simp
  next
    case False
    then obtain s1 c1 where z: "(s1, c1) \<in> set (ms r (s, c))" "length s1 < length s"
        "y \<in> set (ms (Star r) (s1, c1))"
      using in_ms_Star [OF 6(3)] by blast
    have "snd y k = snd (s1, c1) k" using 6(2) [OF z(1) refl z(2) z(3) 6(4)] .
    moreover have "snd (s1, c1) k = snd (s, c) k" using 6(1) [OF z(1) n] .
    ultimately show ?thesis by simp
  qed
next
  case (7 m r s c)
  from in_ms_Rep_none [OF 7(1)] show ?case by simp
next
  case (8 n r s c)
  have nn: "no_grp k r" "no_grp k (Rep 0 n r)" using 8(4) by simp_all
  show ?case
  proof (cases "y = (s, c)")
    case True
    then show ?thesis by simp
  next
    case False
    then obtain s1 c1 where z: "(s1, c1) \<in> set (ms r (s, c))" "length s1 < length s"
        "y \<in> set (ms (Rep 0 n r) (s1, c1))"
      using in_ms_Rep_zero [OF 8(3)] by blast
    have "snd y k = snd (s1, c1) k" using 8(2) [OF z(1) refl z(2) z(3) nn(2)] .
    moreover have "snd (s1, c1) k = snd (s, c) k" using 8(1) [OF z(1) nn(1)] .
    ultimately show ?thesis by simp
  qed
next
  case (9 m n r s c)
  have nn: "no_grp k r" "no_grp k (Rep m n r)" using 9(4) by simp_all
  from in_ms_Rep_more [OF 9(3)] obtain z where z: "z \<in> set (ms r (s, c))"
      "y \<in> set (ms (Rep m n r) z)" by blast
  have "snd z k = snd (s, c) k" using 9(1) [OF z(1) nn(1)] .
  moreover have "snd y k = snd z k" using 9(2) [OF z(1) z(2) nn(2)] .
  ultimately show ?case by simp
next
  case (10 j r s c)
  have n: "j \<noteq> k" "no_grp k r" using 10(3) by simp_all
  from in_ms_Grp [OF 10(2)] obtain s1 c1 where z: "(s1, c1) \<in> set (ms r (s, c))"
      "y = (s1, c1(j \<mapsto> take (length s - length s1) s))"
    by blast
  have "snd (s1, c1) k = snd (s, c) k" using 10(1) [OF z(1) n(2)] .
  then show ?case using z(2) n(1) by simp
qed

lemma avoids_grp_avoids: "avoids a r \<Longrightarrow> grp_avoids a r"
  by (induction r) simp_all

lemma ms_captures:
  "y \<in> set (ms r x) \<Longrightarrow> grp_avoids a r \<Longrightarrow> \<forall>k w. snd x k = Some w \<longrightarrow> a \<notin> set w \<Longrightarrow>
     \<forall>k w. snd y k = Some w \<longrightarrow> a \<notin> set w"
proof (induction r x arbitrary: y rule: ms.induct)
  case (1 p s c)
  from in_ms_Cls [OF 1(1)] 1(3) show ?case by auto
next
  case (2 s c)
  from in_ms_Eps [OF 2(1)] 2(3) show ?case by simp
next
  case (3 s c)
  from in_ms_Eol [OF 3(1)] 3(3) show ?case by simp
next
  case (4 a' b s c)
  from in_ms_Seq [OF 4(3)] obtain z where z: "z \<in> set (ms a' (s, c))" "y \<in> set (ms b z)"
    by blast
  have n: "grp_avoids a a'" "grp_avoids a b" using 4(4) by simp_all
  have "\<forall>k w. snd z k = Some w \<longrightarrow> a \<notin> set w" using 4(1) [OF z(1) n(1) 4(5)] .
  then show ?case using 4(2) [OF z(1) z(2) n(2)] by blast
next
  case (5 a' b s c)
  have n: "grp_avoids a a'" "grp_avoids a b" using 5(4) by simp_all
  from 5(3) have "y \<in> set (ms a' (s, c)) \<or> y \<in> set (ms b (s, c))" by (rule in_ms_Alt)
  then show ?case
  proof
    assume h: "y \<in> set (ms a' (s, c))"
    show ?thesis using 5(1) [OF h n(1) 5(5)] .
  next
    assume h: "y \<in> set (ms b (s, c))"
    show ?thesis using 5(2) [OF h n(2) 5(5)] .
  qed
next
  case (6 r s c)
  have n: "grp_avoids a r" using 6(4) by simp
  show ?case
  proof (cases "y = (s, c)")
    case True
    then show ?thesis using 6(5) by simp
  next
    case False
    then obtain s1 c1 where z: "(s1, c1) \<in> set (ms r (s, c))" "length s1 < length s"
        "y \<in> set (ms (Star r) (s1, c1))"
      using in_ms_Star [OF 6(3)] by blast
    have "\<forall>k w. snd (s1, c1) k = Some w \<longrightarrow> a \<notin> set w" using 6(1) [OF z(1) n 6(5)] .
    then show ?thesis using 6(2) [OF z(1) refl z(2) z(3) 6(4)] by blast
  qed
next
  case (7 m r s c)
  from in_ms_Rep_none [OF 7(1)] 7(3) show ?case by simp
next
  case (8 n r s c)
  have nn: "grp_avoids a r" "grp_avoids a (Rep 0 n r)" using 8(4) by simp_all
  show ?case
  proof (cases "y = (s, c)")
    case True
    then show ?thesis using 8(5) by simp
  next
    case False
    then obtain s1 c1 where z: "(s1, c1) \<in> set (ms r (s, c))" "length s1 < length s"
        "y \<in> set (ms (Rep 0 n r) (s1, c1))"
      using in_ms_Rep_zero [OF 8(3)] by blast
    have "\<forall>k w. snd (s1, c1) k = Some w \<longrightarrow> a \<notin> set w" using 8(1) [OF z(1) nn(1) 8(5)] .
    then show ?thesis using 8(2) [OF z(1) refl z(2) z(3) nn(2)] by blast
  qed
next
  case (9 m n r s c)
  have nn: "grp_avoids a r" "grp_avoids a (Rep m n r)" using 9(4) by simp_all
  from in_ms_Rep_more [OF 9(3)] obtain z where z: "z \<in> set (ms r (s, c))"
      "y \<in> set (ms (Rep m n r) z)" by blast
  have "\<forall>k w. snd z k = Some w \<longrightarrow> a \<notin> set w" using 9(1) [OF z(1) nn(1) 9(5)] .
  then show ?case using 9(2) [OF z(1) z(2) nn(2)] by blast
next
  case (10 j r s c)
  have av: "avoids a r" using 10(3) by simp
  have ga: "grp_avoids a r" using av by (rule avoids_grp_avoids)
  from in_ms_Grp [OF 10(2)] obtain s1 c1 where z: "(s1, c1) \<in> set (ms r (s, c))"
      "y = (s1, c1(j \<mapsto> take (length s - length s1) s))"
    by blast
  obtain w where w: "s = w @ s1" "a \<notin> set w"
    using ms_reads [OF z(1), of a] av by auto
  have tk: "take (length s - length s1) s = w" using w(1) by simp
  have other: "\<forall>k w. c1 k = Some w \<longrightarrow> a \<notin> set w"
    using 10(1) [OF z(1) ga 10(4)] by simp
  show ?case
  proof (intro allI impI)
    fix k v assume "snd y k = Some v"
    then have "(k = j \<and> v = w) \<or> c1 k = Some v"
      using z(2) tk by (auto split: if_splits)
    then show "a \<notin> set v" using w(2) other by blast
  qed
qed

section \<open>A rendering without \<open>#\<close> is parsed without fragment\<close>

lemma ms_Eps_any: "ms Eps x = [x]"
  by (cases x) (simp add: ms.simps(2))

lemma ms_Seq_any: "set (ms (Seq a b) x) = (\<Union>z\<in>set (ms a x). set (ms b z))"
  by (cases x) (simp add: ms.simps(4))

lemma ms_Seqs_Cons: "set (ms (Seqs (r # rs)) x) = (\<Union>z\<in>set (ms r x). set (ms (Seqs rs) z))"
  by (cases rs) (simp_all add: ms_Eps_any ms_Seq_any)

lemma ms_Seqs_append:
  "y \<in> set (ms (Seqs (as @ bs)) x) \<Longrightarrow>
     \<exists>z. z \<in> set (ms (Seqs as) x) \<and> y \<in> set (ms (Seqs bs) z)"
proof (induction as arbitrary: x)
  case Nil
  then show ?case by (simp add: ms_Eps_any)
next
  case (Cons a as)
  from Cons.prems obtain z1 where z1: "z1 \<in> set (ms a x)" "y \<in> set (ms (Seqs (as @ bs)) z1)"
    by (auto simp: ms_Seqs_Cons)
  from Cons.IH [OF z1(2)] obtain z where z: "z \<in> set (ms (Seqs as) z1)" "y \<in> set (ms (Seqs bs) z)"
    by blast
  have "z \<in> set (ms (Seqs (a # as)) x)" using z1(1) z(1) by (auto simp: ms_Seqs_Cons)
  then show ?case using z(2) by blast
qed

lemma no_grp_Seqs: "no_grp k (Seqs rs) = list_all (no_grp k) rs"
  by (induction rs rule: Seqs.induct) simp_all

lemma avoids_Seqs: "avoids a (Seqs rs) = list_all (avoids a) rs"
  by (induction rs rule: Seqs.induct) simp_all

lemma grp_avoids_Seqs: "grp_avoids a (Seqs rs) = list_all (grp_avoids a) rs"
  by (induction rs rule: Seqs.induct) simp_all

lemma avoids_Lit: "avoids a (Lit s) = (\<forall>x\<in>set s. toUpperChar a \<noteq> toUpperChar x)"
  by (induction s rule: Lit.induct) (auto simp: Chr_def)

lemma no_grp_Lit: "no_grp k (Lit s)"
  by (induction s rule: Lit.induct) (simp_all add: Chr_def)

lemma toUpperChar_hash [simp]: "(toUpperChar x = CHR ''#'') = (x = CHR ''#'')"
proof (cases "97 \<le> code x \<and> code x \<le> 122")
  case True
  then have "code x - 32 < 256" "code x - 32 \<noteq> 35" by linarith+
  then have "(code x - 32) mod 256 \<noteq> 35" by simp
  then have ne: "code (char_of (code x - 32)) \<noteq> code CHR ''#''"
    by (simp add: code_def [of "CHR ''#''"])
  have "char_of (code x - 32) \<noteq> CHR ''#''"
  proof
    assume "char_of (code x - 32) = CHR ''#''"
    then have "code (char_of (code x - 32)) = code CHR ''#''" by (simp only:)
    with ne show False ..
  qed
  moreover have "x \<noteq> CHR ''#''" using True by (auto simp: code_def)
  ultimately show ?thesis using True by (simp add: toUpperChar_def)
next
  case False
  then show ?thesis by (auto simp: toUpperChar_def)
qed

lemma toLowerChar_hash [simp]: "(toLowerChar x = CHR ''#'') = (x = CHR ''#'')"
proof (cases "65 \<le> code x \<and> code x \<le> 90")
  case True
  then have "code x + 32 < 256" "code x + 32 \<noteq> 35" by simp_all
  then have "(code x + 32) mod 256 \<noteq> 35" by simp
  then have ne: "code (char_of (code x + 32)) \<noteq> code CHR ''#''"
    by (simp add: code_def [of "CHR ''#''"])
  have "char_of (code x + 32) \<noteq> CHR ''#''"
  proof
    assume "char_of (code x + 32) = CHR ''#''"
    then have "code (char_of (code x + 32)) = code CHR ''#''" by (simp only:)
    with ne show False ..
  qed
  moreover have "x \<noteq> CHR ''#''" using True by (auto simp: code_def)
  ultimately show ?thesis using True by (simp add: toLowerChar_def)
next
  case False
  then show ?thesis by (auto simp: toLowerChar_def)
qed

lemma hash_toUpperChar [simp]: "(CHR ''#'' = toUpperChar x) = (x = CHR ''#'')"
proof -
  have "(CHR ''#'' = toUpperChar x) = (toUpperChar x = CHR ''#'')" by (rule eq_commute)
  then show ?thesis by (simp only: toUpperChar_hash)
qed

lemma toUpperChar_of_hash [simp]: "toUpperChar CHR ''#'' = CHR ''#''"
  by simp

lemma ms_Opt_absent:
  assumes "z' \<in> set (ms (Opt (Seq (Cls p) r)) z)" "\<forall>x\<in>set (fst z). \<not> p x"
  shows "z' = z"
proof -
  obtain s c where z: "z = (s, c)" by (cases z)
  from assms(1) have "z' \<in> set (ms (Rep 0 (Suc 0) (Seq (Cls p) r)) (s, c))"
    by (simp add: Opt_def z)
  from in_ms_Rep_zero [OF this] show ?thesis
  proof
    assume "z' = (s, c)"
    then show ?thesis by (simp add: z)
  next
    assume "\<exists>s1 c1. (s1, c1) \<in> set (ms (Seq (Cls p) r) (s, c)) \<and> length s1 < length s
            \<and> z' \<in> set (ms (Rep 0 0 (Seq (Cls p) r)) (s1, c1))"
    then obtain s1 c1 where "(s1, c1) \<in> set (ms (Seq (Cls p) r) (s, c))" by blast
    from in_ms_Seq [OF this] obtain z1 where "z1 \<in> set (ms (Cls p) (s, c))" by blast
    from in_ms_Cls [OF this] obtain h where "s = h # fst z1" "p h" by blast
    then have False using assms(2) by (simp add: z)
    then show ?thesis ..
  qed
qed

lemma regEx_no_fragment:
  assumes "y \<in> set (ms regEx (t, Map.empty))" "CHR ''#'' \<notin> set t"
  shows "snd y 8 = None"
proof -
  define front where "front = [
     Star (Cls is_space),
     Opt (Seq (Grp 1 (Alt (Lit ''http'') (Lit ''https''))) (Lit ''://'')),
     Alt (Grp 2 (Seq (Rep 3 3 (Seq (Rep 1 3 (Cls is_digit)) (Chr CHR ''.'')))
                     (Rep 1 3 (Cls is_digit))))
      (Alt (Seqs [Chr CHR ''['',
                  Grp 3 (Plus (Cls (\<lambda>x. x = CHR '':'' \<or> x = CHR ''.'' \<or> is_hex x))),
                  Chr CHR '']''])
           (Grp 4 (Seq
              (Star (Alt (Seq (Cls is_word) (Chr CHR ''.''))
                         (Seqs [Cls is_word, Star (Cls (\<lambda>x. is_word x \<or> x = CHR ''-'')),
                                Cls is_word, Chr CHR ''.''])))
              (Alt (Cls is_word)
                   (Seqs [Cls is_word, Star (Cls (\<lambda>x. is_word x \<or> x = CHR ''-'')),
                          Cls is_word]))))),
     Opt (Seq (Chr CHR '':'') (Grp 5 (Seq (Opt (Chr CHR ''-'')) (Rep 1 10 (Cls is_digit))))),
     Opt (Seq (Chr CHR ''/'') (Grp 6 (Star (Alt pctTriplet (Cls pathChar))))),
     Opt (Seq (Chr CHR ''?'') (Grp 7 (Star (Alt pctTriplet (Cls queryChar)))))]"
  define frag where "frag = Grp 8 (Star (Alt pctTriplet (Cls queryChar)))"
  define rear where "rear = [Star (Cls is_space), Eol]"
  have re: "regEx = Seqs (front @ Opt (Seq (Chr CHR ''#'') frag) # rear)"
    unfolding regEx_def front_def frag_def rear_def by simp
  have nf: "no_grp 8 (Seqs front)"
    unfolding front_def
    by (simp add: no_grp_Seqs no_grp_Lit Opt_def Plus_def Chr_def pctTriplet_def)
  have nb: "no_grp 8 (Seqs rear)"
    unfolding rear_def by simp
  from assms(1) obtain z where z: "z \<in> set (ms (Seqs front) (t, Map.empty))"
      "y \<in> set (ms (Seqs (Opt (Seq (Chr CHR ''#'') frag) # rear)) z)"
    unfolding re using ms_Seqs_append by blast
  from z(2) obtain z' where z': "z' \<in> set (ms (Opt (Seq (Chr CHR ''#'') frag)) z)"
      "y \<in> set (ms (Seqs rear) z')"
    by (auto simp: ms_Seqs_Cons)
  have z8: "snd z 8 = None" using ms_keeps [OF z(1) nf] by simp
  obtain w where "t = w @ fst z" using ms_reads [OF z(1), of "CHR ''#''"] by auto
  then have "CHR ''#'' \<notin> set (fst z)" using assms(2) by simp
  then have "\<forall>x\<in>set (fst z). \<not> toUpperChar x = toUpperChar CHR ''#''"
    by auto
  then have "z' = z" using z'(1) unfolding Chr_def by (rule ms_Opt_absent [rotated])
  then show ?thesis using ms_keeps [OF z'(2) nb] z8 by simp
qed

lemma exec_member:
  "exec r t = Some parts \<Longrightarrow> \<exists>s'. (s', parts) \<in> set (ms r (t, Map.empty))"
  by (auto simp: exec_def split: list.splits)

lemma exec_no_fragment:
  "exec regEx t = Some parts \<Longrightarrow> CHR ''#'' \<notin> set t \<Longrightarrow> parts 8 = None"
  using regEx_no_fragment exec_member by fastforce

lemma regEx_grp_avoids: "grp_avoids CHR ''#'' regEx"
  unfolding regEx_def
  by (simp add: grp_avoids_Seqs avoids_Seqs avoids_Lit Opt_def Plus_def Chr_def pctTriplet_def
      pathChar_def queryChar_def is_word_def is_hex_def is_digit_def code_def)

lemma exec_captures:
  assumes "exec regEx t = Some parts"
  shows "CHR ''#'' \<notin> set (part parts k)"
proof -
  obtain s' where "(s', parts) \<in> set (ms regEx (t, Map.empty))"
    using exec_member [OF assms] by blast
  from ms_captures [OF this regEx_grp_avoids]
  have "\<forall>k w. parts k = Some w \<longrightarrow> CHR ''#'' \<notin> set w" by simp
  then show ?thesis by (simp add: part_def split: option.splits)
qed

section \<open>No rendering has a \<open>#\<close>\<close>

lemma hash_char_of: "CHR ''#'' = char_of (n::nat) \<Longrightarrow> n < 256 \<longrightarrow> n = 35"
proof
  assume "CHR ''#'' = char_of n" and "n < 256"
  from this(1) have "code CHR ''#'' = code (char_of n)" by (simp only:)
  then show "n = 35" using \<open>n < 256\<close> by (simp add: code_def [of "CHR ''#''"])
qed

lemma pctReplace_hash:
  assumes "a \<noteq> CHR ''#''" "b \<noteq> CHR ''#''"
  shows "CHR ''#'' \<notin> set (pctReplace [CHR ''%'', a, b])"
proof (cases "pctReplace [CHR ''%'', a, b] = toUpperCase [CHR ''%'', a, b]")
  case True
  then show ?thesis using assms by (simp add: toUpperCase_def)
next
  case False
  then have r: "pctReplace [CHR ''%'', a, b] = [char_of (parseInt16 (tl [CHR ''%'', a, b]))]"
    and n: "parseInt16 (tl [CHR ''%'', a, b]) < 256" "parseInt16 (tl [CHR ''%'', a, b]) \<noteq> 35"
    unfolding pctReplace_def Let_def by (auto split: if_splits)
  show ?thesis
  proof
    assume "CHR ''#'' \<in> set (pctReplace [CHR ''%'', a, b])"
    then have "CHR ''#'' = char_of (parseInt16 (tl [CHR ''%'', a, b]))" unfolding r by simp
    from hash_char_of [OF this] n show False by simp
  qed
qed

lemma replace_pctXX_hash: "CHR ''#'' \<notin> set t \<Longrightarrow> CHR ''#'' \<notin> set (replace_pctXX t)"
proof (induction t rule: replace_pctXX.induct)
  case (1 p a b cs)
  show ?case
  proof (cases "p = CHR ''%'' \<and> is_hex a \<and> is_hex b")
    case True
    have "CHR ''#'' \<notin> set (pctReplace [CHR ''%'', a, b])"
      using 1(3) by (intro pctReplace_hash) auto
    moreover have "CHR ''#'' \<notin> set (replace_pctXX cs)" using 1(1) [OF True] 1(3) by simp
    ultimately show ?thesis using True by simp
  next
    case False
    have "CHR ''#'' \<notin> set (replace_pctXX (a # b # cs))" using 1(2) [OF False] 1(3) by simp
    then show ?thesis using False 1(3) by auto
  qed
qed simp_all

lemma hexdigit_hash: "d < 16 \<Longrightarrow> CHR ''#'' \<noteq> hexdigit d"
proof
  assume d: "d < 16" and h: "CHR ''#'' = hexdigit d"
  show False
  proof (cases "d < 10")
    case True
    then have "CHR ''#'' = char_of (48 + d)" using h by (simp add: hexdigit_def)
    from hash_char_of [OF this] True show False by simp
  next
    case False
    then have "CHR ''#'' = char_of (87 + d)" using h by (simp add: hexdigit_def)
    from hash_char_of [OF this] d show False by simp
  qed
qed

lemma toStringRadix16_hash: "CHR ''#'' \<notin> set (toStringRadix 16 n)"
proof
  assume "CHR ''#'' \<in> set (toStringRadix 16 n)"
  from toStringRadix16_hex [OF this] obtain d where "d < 16" "CHR ''#'' = hexdigit d" by blast
  then show False using hexdigit_hash [of d] by simp
qed

lemma toStringRadix10_hash: "CHR ''#'' \<notin> set (toStringRadix 10 n)"
proof
  assume "CHR ''#'' \<in> set (toStringRadix 10 n)"
  from toStringRadix10_dec [OF this] obtain d where "d < 10" "CHR ''#'' = hexdigit d" by blast
  then show False using hexdigit_hash [of d] by simp
qed

lemma toString16_hash: "CHR ''#'' \<notin> set (toString16 v)"
  by (simp add: toString16_def toStringRadix16_hash)

lemma toString10_hash: "CHR ''#'' \<notin> set (toString10 v)"
  by (simp add: toString10_def toStringRadix10_hash)

lemma match_HEX4_chars: "h \<in> set (match_HEX4 s) \<Longrightarrow> set h \<subseteq> set s"
  by (induction s rule: match_HEX4.induct) (auto split: if_splits)

lemma join_hash:
  "CHR ''#'' \<notin> set sep \<Longrightarrow> \<forall>p\<in>set ps. CHR ''#'' \<notin> set p \<Longrightarrow> CHR ''#'' \<notin> set (join sep ps)"
  using set_join [of sep ps] by auto

lemma dotDecimal_hash: "CHR ''#'' \<notin> set (dotDecimal v)"
  unfolding dotDecimal_def Let_def
  by (rule join_hash) (simp_all add: toString10_hash)

lemma collapse_hash: "CHR ''#'' \<notin> set (collapse v)"
proof -
  have "\<forall>p\<in>set (take 8 (match_HEX4 (padStart 32 CHR ''0'' (toString16 v)))). CHR ''#'' \<notin> set p"
  proof
    fix p assume "p \<in> set (take 8 (match_HEX4 (padStart 32 CHR ''0'' (toString16 v))))"
    then have "p \<in> set (match_HEX4 (padStart 32 CHR ''0'' (toString16 v)))"
      by (rule in_set_takeD)
    from match_HEX4_chars [OF this] show "CHR ''#'' \<notin> set p"
      using toString16_hash [of v] by (auto simp: padStart_def)
  qed
  then have "CHR ''#'' \<notin> set (join '':'' (take 8 (match_HEX4 (padStart 32 CHR ''0'' (toString16 v)))))"
    by (intro join_hash) simp_all
  then show ?thesis
    by (simp add: collapse_def Let_def toString16_hash)
qed

lemma toString_hash: "CHR ''#'' \<notin> set (toString v)"
  by (simp add: toString_def toIPv6String_def dotDecimal_hash collapse_hash)

lemma toLowerCase_hash: "(CHR ''#'' \<in> set (toLowerCase s)) = (CHR ''#'' \<in> set s)"
proof -
  have "(CHR ''#'' \<in> set (map toLowerChar s)) = (CHR ''#'' \<in> set s)"
  proof (induction s)
    case Nil
    show ?case by simp
  next
    case (Cons a s)
    have "(CHR ''#'' = toLowerChar a) = (toLowerChar a = CHR ''#'')" by (rule eq_commute)
    also have "\<dots> = (a = CHR ''#'')" by (rule toLowerChar_hash)
    also have "\<dots> = (CHR ''#'' = a)" by (rule eq_commute)
    finally show ?case using Cons by simp
  qed
  then show ?thesis by (simp add: toLowerCase_def)
qed

lemma splitAcc_chars: "p \<in> set (splitAcc sep cur s) \<Longrightarrow> set p \<subseteq> set cur \<union> set s"
proof (induction s arbitrary: cur)
  case Nil
  then show ?case by simp
next
  case (Cons c cs)
  show ?case
  proof (cases "c = sep")
    case True
    then have "p = cur \<or> p \<in> set (splitAcc sep [] cs)" using Cons.prems by simp
    then show ?thesis using Cons.IH [of "[]"] by auto
  next
    case False
    then have "p \<in> set (splitAcc sep (cur @ [c]) cs)" using Cons.prems by simp
    from Cons.IH [OF this] show ?thesis by auto
  qed
qed

lemma walk_chars: "walk segs st = Inr r \<Longrightarrow> set r \<subseteq> set segs \<union> set st"
proof (induction segs st rule: walk.induct)
  case (1 pathStack)
  then show ?case by simp
next
  case (2 segment rest pathStack)
  show ?case
  proof (cases "segment \<noteq> [] \<and> ''.'' \<noteq> segment")
    case False
    then have "walk rest pathStack = Inr r" using 2(4) by auto
    from 2(3) [OF False this] show ?thesis by auto
  next
    case True
    show ?thesis
    proof (cases "''..'' = segment")
      case dd: True
      then have ne: "\<not> pathStack = []" and w: "walk rest (butlast pathStack) = Inr r"
        using True 2(4) by (auto split: if_splits)
      from 2(1) [OF True dd ne w] show ?thesis by (auto dest: in_set_butlastD)
    next
      case nd: False
      then have "walk rest (pathStack @ [segment]) = Inr r" using True 2(4) by auto
      from 2(2) [OF True nd this] show ?thesis by auto
    qed
  qed
qed

lemma match_qSep_chars: "p \<in> set (match_qSep cur s) \<Longrightarrow> set p \<subseteq> set cur \<union> set s"
proof (induction s arbitrary: cur)
  case Nil
  then show ?case by (simp split: if_splits)
next
  case (Cons c cs)
  show ?case
  proof (cases "c = CHR ''&'' \<or> c = CHR '';''")
    case True
    then have "p = cur \<or> p \<in> set (match_qSep [] cs)"
      using Cons.prems by (auto split: if_splits)
    then show ?thesis using Cons.IH [of "[]"] by auto
  next
    case False
    then have "p \<in> set (match_qSep (cur @ [c]) cs)" using Cons.prems by simp
    from Cons.IH [OF this] show ?thesis by auto
  qed
qed

lemma new_QueryParam_chars:
  "new_QueryParam q None = Inr p \<Longrightarrow> set (QueryParam_toString p) \<subseteq> insert CHR ''='' (set q)"
  by (auto simp: new_QueryParam_def QueryParam_toString_def Let_def split: if_splits
      dest: in_set_takeD in_set_dropD)

lemma pushParams_chars:
  "pushParams qs acc = Inr r \<Longrightarrow>
     \<forall>p\<in>set acc. CHR ''#'' \<notin> set (QueryParam_toString p) \<Longrightarrow>
     \<forall>q\<in>set qs. CHR ''#'' \<notin> set q \<Longrightarrow>
     \<forall>p\<in>set r. CHR ''#'' \<notin> set (QueryParam_toString p)"
proof (induction qs arbitrary: acc)
  case Nil
  then show ?case by simp
next
  case (Cons q qs)
  show ?case
  proof (cases "new_QueryParam q None")
    case (Inl e)
    then show ?thesis using Cons.prems(1) by simp
  next
    case (Inr p)
    then have pp: "pushParams qs (acc @ [p]) = Inr r" using Cons.prems(1) by simp
    have "CHR ''#'' \<notin> set (QueryParam_toString p)"
      using new_QueryParam_chars [OF Inr] Cons.prems(3) by auto
    then have a: "\<forall>x\<in>set (acc @ [p]). CHR ''#'' \<notin> set (QueryParam_toString x)"
      using Cons.prems(2) by simp
    have b: "\<forall>x\<in>set qs. CHR ''#'' \<notin> set x" using Cons.prems(3) by simp
    show ?thesis by (rule Cons.IH [OF pp a b])
  qed
qed

lemma set_insertBy: "set (insertBy cmp x ys) = insert x (set ys)"
  by (induction ys) auto

lemma set_sortBy: "set (sortBy cmp xs) = set xs"
proof -
  have "\<And>acc. set (foldl (\<lambda>acc x. insertBy cmp x acc) acc xs) = set acc \<union> set xs"
    by (induction xs) (simp_all add: set_insertBy)
  then show ?thesis by (simp add: sortBy_def)
qed

lemma rendering_hash:
  assumes "new_HttpURL url = Inr u"
  shows "CHR ''#'' \<notin> set (HttpURL_toString u)"
proof -
  from assms obtain parts ip h p pth q where
    ex: "exec regEx (replace_pctXX url) = Some parts" and
    ho: "hostOf parts = Inr (ip, h)" and
    po: "portOf parts (schemeOf parts) = Inr p" and
    pa: "pathOf parts = Inr pth" and
    qu: "queryOf parts = Inr q" and
    u: "u = \<lparr>scheme = schemeOf parts, ipAddress = ip, host = h, port = p, path = pth, query = q,
             fragment = (if part parts 8 \<noteq> [] then Some (part parts 8) else None),
             isDir = (pth = [] \<or> (part parts 6 \<noteq> [] \<and> last (part parts 6) = CHR ''/''))\<rparr>"
    by (auto simp: new_HttpURL_def Let_def split: option.splits sum.splits prod.splits)
  note cap = exec_captures [OF ex]
  have s: "CHR ''#'' \<notin> set (schemeOf parts)"
    using cap [of 1] by (simp add: schemeOf_def toLowerCase_hash)
  have h: "CHR ''#'' \<notin> set h"
    using ho cap [of 4]
    by (auto simp: hostOf_def toString_hash toLowerCase_hash part_def
        split: if_splits sum.splits option.splits)
  have pt: "\<forall>x\<in>set pth. CHR ''#'' \<notin> set x"
  proof (cases "part parts 6 = []")
    case True
    then show ?thesis using pa by (simp add: pathOf_def)
  next
    case False
    then have "walk (split CHR ''/'' (part parts 6)) [] = Inr pth" using pa by (simp add: pathOf_def)
    from walk_chars [OF this] show ?thesis
      using splitAcc_chars [of _ "CHR ''/''" "[]" "part parts 6"] cap [of 6]
      by (fastforce simp: split_def)
  qed
  have qs: "\<forall>x\<in>set q. CHR ''#'' \<notin> set (QueryParam_toString x)"
  proof (cases "part parts 7 = []")
    case True
    then show ?thesis using qu by (simp add: queryOf_def)
  next
    case False
    then obtain r where r: "pushParams (match_qSep [] (part parts 7)) [] = Inr r"
        "q = sortBy QueryParam_compare r"
      using qu by (auto simp: queryOf_def split: sum.splits)
    have "\<forall>t\<in>set (match_qSep [] (part parts 7)). CHR ''#'' \<notin> set t"
      using match_qSep_chars [of _ "[]" "part parts 7"] cap [of 7] by fastforce
    from pushParams_chars [OF r(1) _ this] show ?thesis by (simp add: r(2) set_sortBy)
  qed
  have f: "CHR ''#'' \<notin> set (part parts 8)" by (rule cap)
  have j1: "CHR ''#'' \<notin> set (join ''/'' pth)" using pt by (intro join_hash) simp_all
  have j2: "CHR ''#'' \<notin> set (join ''&'' (map QueryParam_toString q))"
    using qs by (intro join_hash) simp_all
  show ?thesis
    unfolding HttpURL_toString_def Let_def u
    using s h j1 j2 f toString10_hash [of p]
    by (auto split: option.splits)
qed

lemma reparse_no_fragment:
  assumes "new_HttpURL t = Inr u'" "CHR ''#'' \<notin> set t"
  shows "fragment u' = None"
proof -
  from assms(1) obtain parts where
    ex: "exec regEx (replace_pctXX t) = Some parts" and
    fr: "fragment u' = (if part parts 8 \<noteq> [] then Some (part parts 8) else None)"
    by (auto simp: new_HttpURL_def Let_def split: option.splits sum.splits prod.splits)
  have "parts 8 = None"
    using ex replace_pctXX_hash [OF assms(2)] by (rule exec_no_fragment)
  then show ?thesis using fr by (simp add: part_def)
qed

text \<open>
  Claim C10. For every URL parsed with a fragment, the fragment is not empty and
  \<open>toString\<close> appends its text as it is, with no \<open>#\<close> before it; the rendering has no
  \<open>#\<close> at all. So the rendering of a URL with a fragment never parses to an equal URL:
  where it parses, the URL it gives has no fragment. \<open>toString\<close> of \<open>http://a/x#f\<close> is
  \<open>http://a:80/xf\<close>, not \<open>http://a:80/x#f\<close>, and parses to a URL with the path \<open>xf\<close> and no
  fragment; \<open>toString\<close> of \<open>http://a/x#[\<close> is \<open>http://a:80/x[\<close>, which is not a URL.
\<close>

theorem C10_fragment_without_hash:
  "(\<forall>url u f. new_HttpURL url = Inr u \<and> fragment u = Some f \<longrightarrow>
       f \<noteq> [] \<and> HttpURL_toString u = HttpURL_toString (u\<lparr>fragment := None\<rparr>) @ f
       \<and> CHR ''#'' \<notin> set (HttpURL_toString u)
       \<and> new_HttpURL (HttpURL_toString u) \<noteq> Inr u
       \<and> (\<forall>u'. new_HttpURL (HttpURL_toString u) = Inr u' \<longrightarrow> fragment u' = None))
   \<and> (\<exists>u u'. new_HttpURL ''http://a/x#f'' = Inr u \<and> fragment u = Some ''f''
         \<and> HttpURL_toString u = ''http://a:80/xf''
         \<and> HttpURL_toString u \<noteq> ''http://a:80/x#f''
         \<and> new_HttpURL (HttpURL_toString u) = Inr u'
         \<and> path u' = [''xf''] \<and> fragment u' = None \<and> u' \<noteq> u)
   \<and> (\<exists>u. new_HttpURL ''http://a/x#['' = Inr u \<and> fragment u = Some ''[''
         \<and> HttpURL_toString u = ''http://a:80/x[''
         \<and> new_HttpURL (HttpURL_toString u) = Inl InvalidURL)"
proof -
  have a: "\<forall>url u f. new_HttpURL url = Inr u \<and> fragment u = Some f \<longrightarrow>
       f \<noteq> [] \<and> HttpURL_toString u = HttpURL_toString (u\<lparr>fragment := None\<rparr>) @ f
       \<and> CHR ''#'' \<notin> set (HttpURL_toString u)
       \<and> new_HttpURL (HttpURL_toString u) \<noteq> Inr u
       \<and> (\<forall>u'. new_HttpURL (HttpURL_toString u) = Inr u' \<longrightarrow> fragment u' = None)"
  proof (intro allI impI, elim conjE)
    fix url u f
    assume n: "new_HttpURL url = Inr u" and f: "fragment u = Some f"
    have f1: "f \<noteq> []"
      using n f
      by (auto simp add: new_HttpURL_def Let_def split: option.splits sum.splits if_splits)
    have f2: "HttpURL_toString u = HttpURL_toString (u\<lparr>fragment := None\<rparr>) @ f"
      using f by (auto simp: HttpURL_toString_def Let_def split: option.splits)
    have h: "CHR ''#'' \<notin> set (HttpURL_toString u)" using n by (rule rendering_hash)
    have r: "\<forall>u'. new_HttpURL (HttpURL_toString u) = Inr u' \<longrightarrow> fragment u' = None"
      using reparse_no_fragment [OF _ h] by blast
    then have "new_HttpURL (HttpURL_toString u) \<noteq> Inr u" using f by auto
    then show "f \<noteq> [] \<and> HttpURL_toString u = HttpURL_toString (u\<lparr>fragment := None\<rparr>) @ f
       \<and> CHR ''#'' \<notin> set (HttpURL_toString u)
       \<and> new_HttpURL (HttpURL_toString u) \<noteq> Inr u
       \<and> (\<forall>u'. new_HttpURL (HttpURL_toString u) = Inr u' \<longrightarrow> fragment u' = None)"
      using f1 f2 h r by blast
  qed
  have e1: "new_HttpURL ''http://a/x#f'' =
      Inr \<lparr>scheme = ''http'', ipAddress = None, host = ''a'', port = 80, path = [''x''],
           query = [], fragment = Some ''f'', isDir = False\<rparr>"
    by code_simp
  have e2: "new_HttpURL ''http://a:80/xf'' =
      Inr \<lparr>scheme = ''http'', ipAddress = None, host = ''a'', port = 80, path = [''xf''],
           query = [], fragment = None, isDir = False\<rparr>"
    by code_simp
  have r: "HttpURL_toString \<lparr>scheme = ''http'', ipAddress = None, host = ''a'', port = 80,
      path = [''x''], query = [], fragment = Some ''f'', isDir = False\<rparr> = ''http://a:80/xf''"
    by (simp add: HttpURL_toString_def toString10_def toStringRadix.simps hexdigit_def
        char_of_eq_iff)
  have b: "\<exists>u u'. new_HttpURL ''http://a/x#f'' = Inr u \<and> fragment u = Some ''f''
         \<and> HttpURL_toString u = ''http://a:80/xf''
         \<and> HttpURL_toString u \<noteq> ''http://a:80/x#f''
         \<and> new_HttpURL (HttpURL_toString u) = Inr u'
         \<and> path u' = [''xf''] \<and> fragment u' = None \<and> u' \<noteq> u"
    by (simp add: e1 r e2)
  have e3: "new_HttpURL ''http://a/x#['' =
      Inr \<lparr>scheme = ''http'', ipAddress = None, host = ''a'', port = 80, path = [''x''],
           query = [], fragment = Some ''['', isDir = False\<rparr>"
    by code_simp
  have e4: "new_HttpURL ''http://a:80/x['' = Inl InvalidURL"
    by code_simp
  have r': "HttpURL_toString \<lparr>scheme = ''http'', ipAddress = None, host = ''a'', port = 80,
      path = [''x''], query = [], fragment = Some ''['', isDir = False\<rparr> = ''http://a:80/x[''"
    by (simp add: HttpURL_toString_def toString10_def toStringRadix.simps hexdigit_def
        char_of_eq_iff)
  have c: "\<exists>u. new_HttpURL ''http://a/x#['' = Inr u \<and> fragment u = Some ''[''
         \<and> HttpURL_toString u = ''http://a:80/x[''
         \<and> new_HttpURL (HttpURL_toString u) = Inl InvalidURL"
    by (simp add: e3 r' e4)
  show ?thesis
    using a b c by blast
qed

theorem C10_fragment_without_hash_witness:
  "\<exists>u. new_HttpURL ''http://a/x#f'' = Inr u \<and> fragment u = Some ''f''
     \<and> HttpURL_toString u = HttpURL_toString (u\<lparr>fragment := None\<rparr>) @ ''f''
     \<and> CHR ''#'' \<notin> set (HttpURL_toString u)
     \<and> new_HttpURL (HttpURL_toString u) \<noteq> Inr u"
proof -
  obtain u where u: "new_HttpURL ''http://a/x#f'' = Inr u" "fragment u = Some ''f''"
    using C10_fragment_without_hash by blast
  then show ?thesis
    using C10_fragment_without_hash by blast
qed

end
